theory Spec2Isabelle
  imports Main "HOL-Library.Sublist"
begin

section \<open>Python strings\<close>

text \<open>
  The program is \<^verbatim>\<open>backend/forge_planner_server.py\<close>. A Python \<^verbatim>\<open>str\<close> is a sequence of
  Unicode code points, so a string is a list of code points here (a \<^typ>\<open>char\<close> of HOL
  is a byte and could not hold the line separators U+2028 and U+2029 that
  \<^verbatim>\<open>str.splitlines\<close> and \<^verbatim>\<open>str.strip\<close> look for). \<open>lit\<close> writes an ASCII literal.
\<close>

type_synonym pystr = "nat list"

definition lit :: "string \<Rightarrow> pystr" where
  "lit cs = map of_char cs"

text \<open>
  \<^verbatim>\<open>str.isspace\<close> for one code point (CPython's \<^verbatim>\<open>_PyUnicode_IsWhitespace\<close>): U+0009 to
  U+000D, U+001C to U+001F, U+0020, U+0085, U+00A0, U+1680, U+2000 to U+200A, U+2028,
  U+2029, U+202F, U+205F, U+3000.
\<close>

definition is_space :: "nat \<Rightarrow> bool" where
  "is_space c \<longleftrightarrow>
     (9 \<le> c \<and> c \<le> 13) \<or> (28 \<le> c \<and> c \<le> 32) \<or> c = 133 \<or> c = 160 \<or> c = 5760 \<or>
     (8192 \<le> c \<and> c \<le> 8202) \<or> c = 8232 \<or> c = 8233 \<or> c = 8239 \<or> c = 8287 \<or> c = 12288"

text \<open>
  The line boundaries of \<^verbatim>\<open>str.splitlines\<close> (CPython's \<^verbatim>\<open>_PyUnicode_IsLinebreak\<close>):
  \<^verbatim>\<open>\n\<close>, \<^verbatim>\<open>\v\<close>, \<^verbatim>\<open>\f\<close>, \<^verbatim>\<open>\r\<close>, U+001C, U+001D, U+001E, U+0085, U+2028, U+2029.
\<close>

definition is_linebreak :: "nat \<Rightarrow> bool" where
  "is_linebreak c \<longleftrightarrow>
     (10 \<le> c \<and> c \<le> 13) \<or> (28 \<le> c \<and> c \<le> 30) \<or> c = 133 \<or> c = 8232 \<or> c = 8233"

definition lstrip :: "pystr \<Rightarrow> pystr" where
  "lstrip s = dropWhile is_space s"

definition rstrip :: "pystr \<Rightarrow> pystr" where
  "rstrip s = rev (dropWhile is_space (rev s))"

text \<open>\<^verbatim>\<open>s.strip()\<close>: the whitespace of both ends goes.\<close>

definition strip :: "pystr \<Rightarrow> pystr" where
  "strip s = rstrip (lstrip s)"

text \<open>
  \<^verbatim>\<open>s.splitlines()\<close>. \<open>cur\<close> is the line read so far. \<^verbatim>\<open>\r\n\<close> is one boundary; a
  boundary at the very end opens no further line, and the empty string has no line.
\<close>

fun splitlines_from :: "pystr \<Rightarrow> pystr \<Rightarrow> pystr list" where
  "splitlines_from cur [] = (if cur = [] then [] else [cur])"
| "splitlines_from cur (c # cs) =
     (if c = 13 then
        (case cs of
           [] \<Rightarrow> [cur]
         | d # ds \<Rightarrow> if d = 10 then cur # splitlines_from [] ds else cur # splitlines_from [] cs)
      else if is_linebreak c then cur # splitlines_from [] cs
      else splitlines_from (cur @ [c]) cs)"

definition splitlines :: "pystr \<Rightarrow> pystr list" where
  "splitlines s = splitlines_from [] s"

text \<open>\<^verbatim>\<open>sep.join(xs)\<close>.\<close>

fun join :: "pystr \<Rightarrow> pystr list \<Rightarrow> pystr" where
  "join sep [] = []"
| "join sep [x] = x"
| "join sep (x # y # ys) = x @ sep @ join sep (y # ys)"

text \<open>\<^verbatim>\<open>s.startswith(p)\<close>.\<close>

definition startswith :: "pystr \<Rightarrow> pystr \<Rightarrow> bool" where
  "startswith s p = prefix p s"

section \<open>strip\_code\_fences\<close>

text \<open>The marker \<^verbatim>\<open>"```"\<close>: three code points 96.\<close>

definition fence :: pystr where
  "fence = [96, 96, 96]"

text \<open>
  Lines 98 to 115. \<^verbatim>\<open>if not text: return text\<close> is the empty string for a \<^verbatim>\<open>str\<close>.
  \<^verbatim>\<open>lines[0]\<close> is read only after \<^verbatim>\<open>len(lines) >= 2\<close>, and \<^verbatim>\<open>lines[-1]\<close> only after
  \<^verbatim>\<open>lines\<close> is known to be non-empty, so neither read can fail.
\<close>

definition strip_code_fences :: "pystr \<Rightarrow> pystr" where
  "strip_code_fences text =
     (if text = [] then text
      else
        let stripped = strip text in
        if startswith stripped fence then
          let lines = splitlines stripped in
          if 2 \<le> length lines \<and> startswith (hd lines) fence then
            let lines1 = tl lines;
                lines2 = (if lines1 \<noteq> [] \<and> startswith (strip (last lines1)) fence
                          then butlast lines1 else lines1)
            in strip (join [10] lines2)
          else stripped
        else stripped)"

section \<open>JSON values and json.loads\<close>

text \<open>
  What \<^verbatim>\<open>json.loads\<close> builds. A Python \<^verbatim>\<open>float\<close> is kept as the decimal number its
  literal denotes (sign, digits, power of ten), or as one of the three names the decoder
  also reads; the rounding to a binary double is not modelled, only whether the double is
  zero (see \<open>float_is_zero\<close>). A \<^verbatim>\<open>dict\<close> is an association list with distinct keys in
  insertion order.
\<close>

datatype pyfloat = Dec bool nat int | NaN | PosInf | NegInf

datatype json =
    JNull
  | JBool bool
  | JInt int
  | JFloat pyfloat
  | JStr pystr
  | JArr "json list"
  | JObj "(pystr \<times> json) list"

type_synonym dict = "(pystr \<times> json) list"

text \<open>\<^verbatim>\<open>k in d\<close>, \<^verbatim>\<open>d.get(k)\<close> and \<^verbatim>\<open>d[k] = v\<close> on a \<^verbatim>\<open>dict\<close>: a key that is there keeps its place.\<close>

definition dict_has :: "dict \<Rightarrow> pystr \<Rightarrow> bool" where
  "dict_has d k \<longleftrightarrow> map_of d k \<noteq> None"

definition dict_get :: "dict \<Rightarrow> pystr \<Rightarrow> json option" where
  "dict_get d k = map_of d k"

fun dict_set :: "dict \<Rightarrow> pystr \<Rightarrow> json \<Rightarrow> dict" where
  "dict_set [] k v = [(k, v)]"
| "dict_set (p # ps) k v = (if fst p = k then (k, v) # ps else p # dict_set ps k v)"

subsection \<open>The tokens\<close>

text \<open>
  The decoder is CPython's (\<^verbatim>\<open>json/decoder.py\<close> and the C scanner it runs): the
  whitespace between tokens is space, tab, newline and carriage return; a string may not
  hold a raw control character (strict mode); digits are ASCII. It is written here as a
  tokeniser followed by a parser of the token list, which accepts the same texts with the
  same values, since the scanner allows whitespace exactly between tokens, and raises
  for every text the scanner raises for.
\<close>

datatype token =
    TLBrace | TRBrace | TLBrack | TRBrack | TColon | TComma
  | TStr pystr
  | TVal json

definition is_json_ws :: "nat \<Rightarrow> bool" where
  "is_json_ws c \<longleftrightarrow> c = 32 \<or> c = 9 \<or> c = 10 \<or> c = 13"

definition is_digit :: "nat \<Rightarrow> bool" where
  "is_digit c \<longleftrightarrow> 48 \<le> c \<and> c \<le> 57"

definition hex_val :: "nat \<Rightarrow> nat option" where
  "hex_val c =
     (if 48 \<le> c \<and> c \<le> 57 then Some (c - 48)
      else if 97 \<le> c \<and> c \<le> 102 then Some (c - 87)
      else if 65 \<le> c \<and> c \<le> 70 then Some (c - 55)
      else None)"

text \<open>The four hexadecimal digits of \<^verbatim>\<open>\uXXXX\<close>.\<close>

fun decode_u4 :: "pystr \<Rightarrow> (nat \<times> pystr) option" where
  "decode_u4 (a # b # c # d # rest) =
     (case (hex_val a, hex_val b, hex_val c, hex_val d) of
        (Some w, Some x, Some y, Some z) \<Rightarrow> Some (((w * 16 + x) * 16 + y) * 16 + z, rest)
      | _ \<Rightarrow> None)"
| "decode_u4 _ = None"

text \<open>The one-letter escapes: \<^verbatim>\<open>" \ / b f n r t\<close>.\<close>

definition backslash :: "nat \<Rightarrow> nat option" where
  "backslash e =
     (if e = 34 then Some 34 else if e = 92 then Some 92 else if e = 47 then Some 47
      else if e = 98 then Some 8 else if e = 102 then Some 12 else if e = 110 then Some 10
      else if e = 114 then Some 13 else if e = 116 then Some 9 else None)"

text \<open>
  One escape, read after its backslash. A high surrogate followed by \<^verbatim>\<open>\u\<close> and a low
  surrogate is one code point; followed by \<^verbatim>\<open>\u\<close> and anything else that is four
  hexadecimal digits it stays alone.
\<close>

fun lex_escape :: "pystr \<Rightarrow> (nat \<times> pystr) option" where
  "lex_escape [] = None"
| "lex_escape (e # r) =
     (if e = 117 then
        (case decode_u4 r of
           None \<Rightarrow> None
         | Some (uni, r1) \<Rightarrow>
             if 55296 \<le> uni \<and> uni \<le> 56319 \<and> take 2 r1 = [92, 117] then
               (case decode_u4 (drop 2 r1) of
                  None \<Rightarrow> None
                | Some (uni2, r2) \<Rightarrow>
                    if 56320 \<le> uni2 \<and> uni2 \<le> 57343
                    then Some (65536 + ((uni - 55296) * 1024 + (uni2 - 56320)), r2)
                    else Some (uni, r1))
             else Some (uni, r1))
      else map_option (\<lambda>ch. (ch, r)) (backslash e))"

lemma decode_u4_shorter: "decode_u4 r = Some (u, r1) \<Longrightarrow> length r1 < length r"
  by (induction r rule: decode_u4.induct) (auto split: option.splits)

lemma lex_escape_shorter: "lex_escape es = Some (ch, rest) \<Longrightarrow> length rest < length es"
  by (cases es)
    (auto split: if_splits option.splits dest!: decode_u4_shorter)

text \<open>A string, read after its opening quote: the decoded text and what follows the closing quote.\<close>

function lex_string :: "pystr \<Rightarrow> pystr \<Rightarrow> (pystr \<times> pystr) option" where
  "lex_string acc [] = None"
| "lex_string acc (c # cs) =
     (if c = 34 then Some (acc, cs)
      else if c = 92 then
        (case lex_escape cs of
           None \<Rightarrow> None
         | Some (ch, rest) \<Rightarrow> lex_string (acc @ [ch]) rest)
      else if c \<le> 31 then None
      else lex_string (acc @ [c]) cs)"
  by pat_completeness auto
termination
  by (relation "measure (\<lambda>(acc, s). length s)") (auto dest: lex_escape_shorter)

subsection \<open>Numbers\<close>

definition nat_of_digits :: "pystr \<Rightarrow> nat" where
  "nat_of_digits ds = foldl (\<lambda>n d. 10 * n + (d - 48)) 0 ds"

text \<open>The integer part: \<^verbatim>\<open>0\<close> alone, or a digit from 1 to 9 and every digit after it.\<close>

fun int_part :: "pystr \<Rightarrow> (pystr \<times> pystr) option" where
  "int_part [] = None"
| "int_part (c # cs) =
     (if c = 48 then Some ([c], cs)
      else if 49 \<le> c \<and> c \<le> 57 then Some (c # takeWhile is_digit cs, dropWhile is_digit cs)
      else None)"

text \<open>The fraction: a point and at least one digit, or nothing.\<close>

fun frac_part :: "pystr \<Rightarrow> (pystr \<times> pystr) option" where
  "frac_part (p # d # r) =
     (if p = 46 \<and> is_digit d then Some (d # takeWhile is_digit r, dropWhile is_digit r)
      else None)"
| "frac_part _ = None"

text \<open>The exponent: \<^verbatim>\<open>e\<close> or \<^verbatim>\<open>E\<close>, a sign or none, at least one digit; or nothing.\<close>

fun exp_part :: "pystr \<Rightarrow> (int \<times> pystr) option" where
  "exp_part [] = None"
| "exp_part (e # r) =
     (if e = 101 \<or> e = 69 then
        (let signed = (r \<noteq> [] \<and> (hd r = 45 \<or> hd r = 43));
             r1 = (if signed then tl r else r)
         in if r1 \<noteq> [] \<and> is_digit (hd r1)
            then Some ((if r \<noteq> [] \<and> hd r = 45 then - 1 else 1)
                         * int (nat_of_digits (takeWhile is_digit r1)),
                       dropWhile is_digit r1)
            else None)
      else None)"

text \<open>
  A number: \<^verbatim>\<open>int\<close> when it has neither fraction nor exponent, \<^verbatim>\<open>float\<close> otherwise.
  \<open>md\<close> is the interpreter's limit on the digits of an integer read from a string
  (\<^verbatim>\<open>sys.get_int_max_str_digits()\<close>: 4300 unless set otherwise, 0 for no limit, and no
  limit before Python 3.11): \<^verbatim>\<open>int\<close> raises \<^verbatim>\<open>ValueError\<close> on more digits, and so does
  \<^verbatim>\<open>json.loads\<close>. The sign is not counted, and a float has no such limit.
\<close>

definition number_from :: "nat \<Rightarrow> bool \<Rightarrow> pystr \<Rightarrow> (json \<times> pystr) option" where
  "number_from md neg cs1 =
     (case int_part cs1 of
        None \<Rightarrow> None
      | Some (ip, cs2) \<Rightarrow>
          (case frac_part cs2 of
             None \<Rightarrow>
               (case exp_part cs2 of
                  None \<Rightarrow>
                    if 0 < md \<and> md < length ip then None
                    else Some (JInt ((if neg then - 1 else 1) * int (nat_of_digits ip)), cs2)
                | Some (ex, cs3) \<Rightarrow> Some (JFloat (Dec neg (nat_of_digits ip) ex), cs3))
           | Some (fp, cs3) \<Rightarrow>
               (case exp_part cs3 of
                  None \<Rightarrow>
                    Some (JFloat (Dec neg (nat_of_digits (ip @ fp)) (- int (length fp))), cs3)
                | Some (ex, cs4) \<Rightarrow>
                    Some (JFloat (Dec neg (nat_of_digits (ip @ fp)) (ex - int (length fp))),
                          cs4))))"

definition lex_number :: "nat \<Rightarrow> pystr \<Rightarrow> (json \<times> pystr) option" where
  "lex_number md cs =
     (case cs of
        [] \<Rightarrow> None
      | c # r \<Rightarrow> if c = 45 then number_from md True r else number_from md False cs)"

lemma int_part_shorter: "int_part cs = Some (ip, r) \<Longrightarrow> length r < length cs"
  by (cases cs) (auto split: if_splits simp: length_dropWhile_le less_Suc_eq_le)

lemma frac_part_shorter: "frac_part cs = Some (fp, r) \<Longrightarrow> length r < length cs"
  by (induction cs rule: frac_part.induct)
    (auto split: if_splits simp: length_dropWhile_le less_Suc_eq_le le_SucI)

lemma exp_part_shorter:
  assumes a: "exp_part cs = Some (ex, r)"
  shows "length r < length cs"
proof (cases cs)
  case Nil
  with a show ?thesis by simp
next
  case (Cons e r0)
  have "length (dropWhile is_digit (tl r0)) \<le> length r0"
    by (rule order_trans [OF length_dropWhile_le]) simp
  moreover have "length (dropWhile is_digit r0) \<le> length r0"
    by (rule length_dropWhile_le)
  ultimately show ?thesis
    using a Cons by (auto simp: Let_def split: if_splits)
qed

lemma number_from_shorter:
  assumes a: "number_from md neg cs = Some (v, r)"
  shows "length r < length cs"
proof -
  from a obtain ip cs2 where i: "int_part cs = Some (ip, cs2)"
    by (auto simp: number_from_def split: option.splits)
  from a i have "r = cs2 \<or> (\<exists>x. exp_part cs2 = Some (x, r)) \<or>
      (\<exists>fp cs3. frac_part cs2 = Some (fp, cs3) \<and> (r = cs3 \<or> (\<exists>x. exp_part cs3 = Some (x, r))))"
    by (auto simp: number_from_def split: option.splits if_splits)
  then show ?thesis
    using int_part_shorter [OF i] by (auto dest!: exp_part_shorter frac_part_shorter)
qed

lemma lex_number_shorter:
  assumes a: "lex_number md cs = Some (v, r)"
  shows "length r < length cs"
  using a by (cases cs) (auto simp: lex_number_def split: if_splits dest!: number_from_shorter)

text \<open>
  \<open>move c r\<close> is the result \<open>r\<close> of a reader with \<open>c\<close> put at the end of the text it
  left; the facts below use it to say what a reader does when one more character follows
  its input.
\<close>

definition move :: "nat \<Rightarrow> ('a \<times> pystr) option \<Rightarrow> ('a \<times> pystr) option" where
  "move c r = map_option (\<lambda>(a, rest). (a, rest @ [c])) r"

subsection \<open>The tokeniser\<close>

definition tok :: "token \<Rightarrow> token list option \<Rightarrow> token list option" where
  "tok t r = map_option ((#) t) r"

text \<open>
  The names are tried before the number, as the scanner does; \<^verbatim>\<open>-Infinity\<close> before a
  negative number.
\<close>

function tokenize :: "nat \<Rightarrow> pystr \<Rightarrow> token list option" where
  "tokenize md [] = Some []"
| "tokenize md (c # cs) =
     (if is_json_ws c then tokenize md cs
      else if c = 123 then tok TLBrace (tokenize md cs)
      else if c = 125 then tok TRBrace (tokenize md cs)
      else if c = 91 then tok TLBrack (tokenize md cs)
      else if c = 93 then tok TRBrack (tokenize md cs)
      else if c = 58 then tok TColon (tokenize md cs)
      else if c = 44 then tok TComma (tokenize md cs)
      else if c = 34 then
        (case lex_string [] cs of
           None \<Rightarrow> None
         | Some (s, rest) \<Rightarrow> tok (TStr s) (tokenize md rest))
      else if prefix (lit ''null'') (c # cs) then tok (TVal JNull) (tokenize md (drop 3 cs))
      else if prefix (lit ''true'') (c # cs) then tok (TVal (JBool True)) (tokenize md (drop 3 cs))
      else if prefix (lit ''false'') (c # cs) then tok (TVal (JBool False)) (tokenize md (drop 4 cs))
      else if prefix (lit ''NaN'') (c # cs) then tok (TVal (JFloat NaN)) (tokenize md (drop 2 cs))
      else if prefix (lit ''Infinity'') (c # cs) then tok (TVal (JFloat PosInf)) (tokenize md (drop 7 cs))
      else if prefix (lit ''-Infinity'') (c # cs) then tok (TVal (JFloat NegInf)) (tokenize md (drop 8 cs))
      else
        (case lex_number md (c # cs) of
           None \<Rightarrow> None
         | Some (v, rest) \<Rightarrow> tok (TVal v) (tokenize md rest)))"
  by pat_completeness auto

lemma lex_string_shorter: "lex_string acc cs = Some (s, rest) \<Longrightarrow> length rest < length cs"
proof (induction acc cs rule: lex_string.induct)
  case (1 acc)
  then show ?case by simp
next
  case (2 acc c cs)
  show ?case
  proof (cases "c = 34")
    case True
    with "2.prems" show ?thesis by simp
  next
    case q: False
    show ?thesis
    proof (cases "c = 92")
      case True
      with q "2.prems" obtain ch r where e: "lex_escape cs = Some (ch, r)"
        and l: "lex_string (acc @ [ch]) r = Some (s, rest)"
        by (auto split: option.splits)
      from "2.IH"(1) [OF q True e refl l] lex_escape_shorter [OF e]
      show ?thesis by simp
    next
      case False
      with q "2.prems" have c: "\<not> c \<le> 31" and l: "lex_string (acc @ [c]) cs = Some (s, rest)"
        by (auto split: if_splits)
      from "2.IH"(2) [OF q False c l] show ?thesis by simp
    qed
  qed
qed

termination tokenize
  by (relation "measure (\<lambda>(md, s). length s)")
    (auto dest: lex_string_shorter lex_number_shorter)

subsection \<open>The parser\<close>

text \<open>
  \<open>parse_value\<close> reads one value and returns it with the tokens left. \<open>parse_elems\<close>
  reads the elements of an array after its bracket or a comma, \<open>parse_members\<close> the
  members of an object after its brace or a comma: a closing bracket or brace right after
  a comma is refused, a key is a string, and a key read twice keeps its last value. The
  tests \<open>length r < length ts\<close> always hold (\<open>parse_shorter\<close> below); they are written for
  the termination proof. \<open>n\<close> is the number of arrays and objects that may still be
  opened one inside the other: the scanner enters a recursive call for each, and raises
  \<^verbatim>\<open>RecursionError\<close> when the interpreter's recursion limit is reached.
\<close>

function parse_value :: "nat \<Rightarrow> token list \<Rightarrow> (json \<times> token list) option"
  and parse_elems :: "nat \<Rightarrow> json list \<Rightarrow> token list \<Rightarrow> (json \<times> token list) option"
  and parse_members :: "nat \<Rightarrow> dict \<Rightarrow> token list \<Rightarrow> (json \<times> token list) option"
where
  "parse_value n [] = None"
| "parse_value n (t # ts) =
     (case t of
        TStr s \<Rightarrow> Some (JStr s, ts)
      | TVal v \<Rightarrow> Some (v, ts)
      | TLBrack \<Rightarrow>
          if n = 0 then None
          else
            (case ts of
               [] \<Rightarrow> None
             | u # r \<Rightarrow> if u = TRBrack then Some (JArr [], r) else parse_elems (n - 1) [] ts)
      | TLBrace \<Rightarrow>
          if n = 0 then None
          else
            (case ts of
               [] \<Rightarrow> None
             | u # r \<Rightarrow> if u = TRBrace then Some (JObj [], r) else parse_members (n - 1) [] ts)
      | _ \<Rightarrow> None)"
| "parse_elems n acc ts =
     (case parse_value n ts of
        None \<Rightarrow> None
      | Some (v, r) \<Rightarrow>
          if length r < length ts then
            (case r of
               [] \<Rightarrow> None
             | u # r' \<Rightarrow>
                 if u = TComma then parse_elems n (acc @ [v]) r'
                 else if u = TRBrack then Some (JArr (acc @ [v]), r')
                 else None)
          else None)"
| "parse_members n acc [] = None"
| "parse_members n acc [k] = None"
| "parse_members n acc (k # c # ts) =
     (case k of
        TStr key \<Rightarrow>
          if c = TColon then
            (case parse_value n ts of
               None \<Rightarrow> None
             | Some (v, r) \<Rightarrow>
                 if length r < length ts then
                   (case r of
                      [] \<Rightarrow> None
                    | u # r' \<Rightarrow>
                        if u = TComma then parse_members n (dict_set acc key v) r'
                        else if u = TRBrace then Some (JObj (dict_set acc key v), r')
                        else None)
                 else None)
          else None
      | _ \<Rightarrow> None)"
  by pat_completeness auto
termination
  by (relation "measure (\<lambda>x. case x of
        Inl (n, ts) \<Rightarrow> 2 * length ts
      | Inr (Inl (n, acc, ts)) \<Rightarrow> 2 * length ts + 1
      | Inr (Inr (n, acc, ts)) \<Rightarrow> 2 * length ts + 1)") auto

text \<open>
  The two limits of the interpreter that \<^verbatim>\<open>json.loads\<close> meets: the nesting it can reach
  where it is called (what the recursion limit, 1000 unless set otherwise, leaves below
  the call) and the digits of an integer.
\<close>

record limits =
  max_depth :: nat
  max_digits :: nat

text \<open>
  \<^verbatim>\<open>json.loads(s)\<close> on a string: \<open>None\<close> is the exception it raises, \<^verbatim>\<open>JSONDecodeError\<close>
  on a text that is not one value with whitespace before and after and nothing else,
  \<^verbatim>\<open>RecursionError\<close> or \<^verbatim>\<open>ValueError\<close> on a text beyond a limit. The three places that
  call it catch all of them alike.
\<close>

definition json_loads :: "limits \<Rightarrow> pystr \<Rightarrow> json option" where
  "json_loads L s =
     (case tokenize (max_digits L) s of
        None \<Rightarrow> None
      | Some toks \<Rightarrow>
          (case parse_value (max_depth L) toks of
             None \<Rightarrow> None
           | Some (v, rest) \<Rightarrow> if rest = [] then Some v else None))"

text \<open>
  The grammar that \<^verbatim>\<open>json.loads\<close> reads: what it accepts when no limit applies. It is the
  grammar of RFC 8259 and the three names \<^verbatim>\<open>NaN\<close>, \<^verbatim>\<open>Infinity\<close> and \<^verbatim>\<open>-Infinity\<close>. A
  text has no more nested values than tokens, so its number of tokens is depth enough
  (\<open>parse_deeper\<close> below), and whatever \<^verbatim>\<open>json.loads\<close> reads at some limits is in this
  grammar (\<open>json_loads_decoder_accepts\<close> below).
\<close>

definition decoder_accepts :: "pystr \<Rightarrow> bool" where
  "decoder_accepts s =
     (case tokenize 0 s of
        None \<Rightarrow> False
      | Some toks \<Rightarrow>
          (case parse_value (length toks) toks of
             None \<Rightarrow> False
           | Some (v, rest) \<Rightarrow> rest = []))"

text \<open>
  Valid JSON, as the claims say it: the grammar of RFC 8259, which is the grammar that
  \<^verbatim>\<open>json.loads\<close> reads less the three names.
\<close>

fun is_name_token :: "token \<Rightarrow> bool" where
  "is_name_token (TVal (JFloat NaN)) \<longleftrightarrow> True"
| "is_name_token (TVal (JFloat PosInf)) \<longleftrightarrow> True"
| "is_name_token (TVal (JFloat NegInf)) \<longleftrightarrow> True"
| "is_name_token _ \<longleftrightarrow> False"

definition valid_json :: "pystr \<Rightarrow> bool" where
  "valid_json s =
     (case tokenize 0 s of
        None \<Rightarrow> False
      | Some toks \<Rightarrow>
          \<not> list_ex is_name_token toks \<and>
          (case parse_value (length toks) toks of
             None \<Rightarrow> False
           | Some (v, rest) \<Rightarrow> rest = []))"

section \<open>Python values at run time\<close>

text \<open>
  The exceptions that can leave the functions of the program. \<^verbatim>\<open>KeyError\<close> is listed for
  \<^verbatim>\<open>data[k]\<close>; the program reads a key only after testing that it is there.
\<close>

datatype error = TypeError | AttributeError | KeyError

definition seq :: "error + 'a \<Rightarrow> ('a \<Rightarrow> error + 'b) \<Rightarrow> error + 'b" where
  "seq m f = (case m of Inl e \<Rightarrow> Inl e | Inr x \<Rightarrow> f x)"

text \<open>
  Whether a float is \<^verbatim>\<open>0.0\<close>: its digits are all zero, or the decimal number is at most
  2 to the power -1075, half the smallest positive double, and rounds to zero.
\<close>

fun float_is_zero :: "pyfloat \<Rightarrow> bool" where
  "float_is_zero (Dec neg m e) \<longleftrightarrow> m = 0 \<or> (e < 0 \<and> m * 2 ^ 1075 \<le> 10 ^ nat (- e))"
| "float_is_zero _ \<longleftrightarrow> False"

text \<open>\<^verbatim>\<open>bool(v)\<close>, which \<^verbatim>\<open>not v\<close> and \<^verbatim>\<open>v or w\<close> test.\<close>

fun truthy :: "json \<Rightarrow> bool" where
  "truthy JNull \<longleftrightarrow> False"
| "truthy (JBool b) \<longleftrightarrow> b"
| "truthy (JInt i) \<longleftrightarrow> i \<noteq> 0"
| "truthy (JFloat f) \<longleftrightarrow> \<not> float_is_zero f"
| "truthy (JStr s) \<longleftrightarrow> s \<noteq> []"
| "truthy (JArr xs) \<longleftrightarrow> xs \<noteq> []"
| "truthy (JObj d) \<longleftrightarrow> d \<noteq> []"

definition py_or :: "json \<Rightarrow> json \<Rightarrow> json" where
  "py_or v w = (if truthy v then v else w)"

fun is_list :: "json \<Rightarrow> bool" where
  "is_list (JArr xs) \<longleftrightarrow> True"
| "is_list _ \<longleftrightarrow> False"

fun is_str :: "json \<Rightarrow> bool" where
  "is_str (JStr s) \<longleftrightarrow> True"
| "is_str _ \<longleftrightarrow> False"

fun is_dict :: "json \<Rightarrow> bool" where
  "is_dict (JObj d) \<longleftrightarrow> True"
| "is_dict _ \<longleftrightarrow> False"

text \<open>
  \<^verbatim>\<open>k in data\<close> for a string \<open>k\<close>: a key of a dict, an element of a list, a substring of a
  string; \<^verbatim>\<open>TypeError\<close> on \<^verbatim>\<open>None\<close>, a boolean or a number, which are not iterable.
\<close>

fun py_contains :: "json \<Rightarrow> pystr \<Rightarrow> error + bool" where
  "py_contains (JObj d) k = Inr (dict_has d k)"
| "py_contains (JArr xs) k = Inr (JStr k \<in> set xs)"
| "py_contains (JStr s) k = Inr (sublist k s)"
| "py_contains _ k = Inl TypeError"

text \<open>
  \<^verbatim>\<open>data[k]\<close> for a string \<open>k\<close>: the value of a dict; \<^verbatim>\<open>TypeError\<close> on a list and a
  string, whose indices are integers, and on the values that have no items.
\<close>

fun py_getitem :: "json \<Rightarrow> pystr \<Rightarrow> error + json" where
  "py_getitem (JObj d) k = (case dict_get d k of None \<Rightarrow> Inl KeyError | Some v \<Rightarrow> Inr v)"
| "py_getitem _ k = Inl TypeError"

text \<open>\<^verbatim>\<open>data[k] = v\<close> for a string \<open>k\<close>: only a dict takes it.\<close>

fun py_setitem :: "json \<Rightarrow> pystr \<Rightarrow> json \<Rightarrow> error + json" where
  "py_setitem (JObj d) k v = Inr (JObj (dict_set d k v))"
| "py_setitem _ k v = Inl TypeError"

text \<open>\<^verbatim>\<open>data.get(k, default)\<close>: only a dict has the method.\<close>

fun py_get :: "json \<Rightarrow> pystr \<Rightarrow> json \<Rightarrow> error + json" where
  "py_get (JObj d) k dflt = Inr (case dict_get d k of None \<Rightarrow> dflt | Some v \<Rightarrow> v)"
| "py_get _ k dflt = Inl AttributeError"

text \<open>
  What the program calls and does not define. \<open>py_str\<close> is Python's \<^verbatim>\<open>str\<close> on a parsed
  value, \<open>json_dumps\<close> is \<^verbatim>\<open>json.dumps(v, indent=2, sort_keys=True)\<close>; both print floats, so
  they are parameters, total on the values \<^verbatim>\<open>json.loads\<close> builds. \<open>requests_post\<close> is the
  local model server: what \<^verbatim>\<open>requests.post(OLLAMA_URL, json=body, timeout=120)\<close> gives
  for a body, a response or a \<^verbatim>\<open>RequestException\<close> (a refused connection, a timeout). A
  response is its status code and the text that \<^verbatim>\<open>Response.json()\<close> decodes its bytes to
  and hands to \<^verbatim>\<open>json.loads\<close>. The three \<open>limits\<close> are those of the interpreter at the
  three calls of \<^verbatim>\<open>json.loads\<close>: in \<^verbatim>\<open>get_json\<close> (line 181), in \<^verbatim>\<open>ollama_resp.json()\<close>
  (line 250) and in \<^verbatim>\<open>safe_parse_llm_json\<close> (line 126); the calls stand at different
  depths of the stack, so the nesting left to each may differ.
\<close>

datatype post_result = RequestException | Response nat pystr

record runtime =
  py_str :: "json \<Rightarrow> pystr"
  json_dumps :: "json \<Rightarrow> pystr"
  requests_post :: "json \<Rightarrow> post_result"
  body_limits :: limits
  envelope_limits :: limits
  plan_limits :: limits

section \<open>The program\<close>

subsection \<open>build\_llm\_prompt\<close>

text \<open>The fixed text of lines 71 to 75, 77, 79 to 92. Code point 8211 is the dash of line 89.\<close>

definition prompt_intro :: pystr where
  \<open>prompt_intro =
     [10, 10] @
     lit ''You are now running inside a local planning backend.'' @ [10] @
     lit ''You are given the planner schema and context as JSON.'' @ [10] @
     lit ''Use them to generate a SHORT sequence of forging operations.'' @ [10, 10] @
     lit ''SCHEMA (operations + paramSchemas + extras):'' @ [10]\<close>

definition prompt_context_heading :: pystr where
  \<open>prompt_context_heading = [10, 10] @ lit ''PLANNER CONTEXT:'' @ [10]\<close>

definition single_object_instruction :: pystr where
  \<open>single_object_instruction =
     lit ''1. Respond with a single JSON object only. No prose, no markdown, no backticks.''\<close>

definition prompt_requirements :: pystr where
  \<open>prompt_requirements =
     [10, 10] @
     lit ''Output requirements:'' @ [10] @
     single_object_instruction @ [10] @
     lit ''2. Shape MUST be:'' @ [10] @
     lit ''   { "steps": [ { "operationType": string, "params": object } ],'' @ [10] @
     lit ''     "notes": "optional string" }'' @ [10] @
     lit ''3. For each step:'' @ [10] @
     lit ''   - operationType must be one of the known operation ids from schema.operations.'' @ [10] @
     lit ''   - params keys must come from the canonical paramSchemas for that operation,'' @ [10] @
     lit ''     plus generic fields like lengthRegion, location, distanceFromEnd,'' @ [10] @
     lit ''     volumeDeltaOverride, description.'' @ [10] @
     lit ''4. Use 3'' @ [8211] @ lit ''12 steps if possible. Prefer simple, beginner-friendly plans.'' @ [10] @
     lit ''5. Keep net volume close to the target volume. Small conservative loss is OK.'' @ [10] @
     [10] @
     lit ''Return ONLY the JSON object. Do NOT wrap it in ```json``` or any other text.''\<close>

text \<open>Lines 55 to 95, for a \<^verbatim>\<open>spec\<close> that is a string and two dicts.\<close>

definition build_llm_prompt :: "runtime \<Rightarrow> pystr \<Rightarrow> dict \<Rightarrow> dict \<Rightarrow> pystr" where
  "build_llm_prompt R spec schema context =
     (let schema_json = json_dumps R (JObj schema);
          context_json = json_dumps R (JObj context)
      in strip spec @ prompt_intro @ schema_json @ prompt_context_heading @ context_json
           @ prompt_requirements)"

subsection \<open>safe\_parse\_llm\_json\<close>

definition fallback_plan :: "pystr \<Rightarrow> json" where
  "fallback_plan note = JObj [(lit ''steps'', JArr []), (lit ''notes'', JStr note)]"

definition not_valid_json_note :: pystr where
  "not_valid_json_note = lit ''LLM output was not valid JSON; falling back to empty plan.''"

text \<open>
  Lines 135 and 136. \<^verbatim>\<open>or\<close> reads \<^verbatim>\<open>data["steps"]\<close> only when the key test gave
  \<^verbatim>\<open>False\<close>.
\<close>

definition ensure_steps :: "json \<Rightarrow> error + json" where
  "ensure_steps data =
     seq (py_contains data (lit ''steps'')) (\<lambda>has.
     seq (if \<not> has then Inr True
          else seq (py_getitem data (lit ''steps'')) (\<lambda>v. Inr (\<not> is_list v))) (\<lambda>replace.
     if replace then py_setitem data (lit ''steps'') (JArr []) else Inr data))"

text \<open>Lines 138 to 141.\<close>

definition ensure_notes :: "runtime \<Rightarrow> json \<Rightarrow> error + json" where
  "ensure_notes R data =
     seq (py_contains data (lit ''notes'')) (\<lambda>has.
     seq (if has then seq (py_getitem data (lit ''notes'')) (\<lambda>v. Inr (\<not> is_str v))
          else Inr False) (\<lambda>coerce.
     if coerce then
       seq (py_getitem data (lit ''notes'')) (\<lambda>v.
       py_setitem data (lit ''notes'') (JStr (py_str R v)))
     else
       seq (py_contains data (lit ''notes'')) (\<lambda>has2.
       if \<not> has2 then py_setitem data (lit ''notes'') (JStr []) else Inr data)))"

text \<open>
  Lines 118 to 143, for a \<^verbatim>\<open>raw_text\<close> that is a string. \<^verbatim>\<open>except Exception\<close> covers
  \<^verbatim>\<open>json.loads\<close> only; what lines 135 to 141 raise leaves the function.
\<close>

definition safe_parse_llm_json :: "runtime \<Rightarrow> pystr \<Rightarrow> error + json" where
  "safe_parse_llm_json R raw_text =
     (let cleaned = strip_code_fences raw_text
      in case json_loads (plan_limits R) cleaned of
           None \<Rightarrow> Inr (fallback_plan not_valid_json_note)
         | Some data \<Rightarrow> seq (ensure_steps data) (ensure_notes R))"

text \<open>
  The same call on any value, as line 263 makes it. A value that is not a string and is
  falsy passes \<^verbatim>\<open>if not text: return text\<close>, and \<^verbatim>\<open>json.loads\<close> raises \<^verbatim>\<open>TypeError\<close> on
  it inside the \<^verbatim>\<open>try\<close>: the fallback plan. One that is truthy reaches \<^verbatim>\<open>text.strip()\<close>,
  outside the \<^verbatim>\<open>try\<close>: \<^verbatim>\<open>AttributeError\<close>.
\<close>

definition safe_parse_llm_json_any :: "runtime \<Rightarrow> json \<Rightarrow> error + json" where
  "safe_parse_llm_json_any R raw_output =
     (case raw_output of
        JStr s \<Rightarrow> safe_parse_llm_json R s
      | v \<Rightarrow> if truthy v then Inl AttributeError
             else Inr (fallback_plan not_valid_json_note))"

subsection \<open>forge\_plan\<close>

datatype http_method = POST | OPTIONS

record request =
  request_method :: http_method
  body :: "pystr option"

record response =
  status :: nat
  content :: json
  cors_headers :: "(pystr \<times> pystr) list"

text \<open>
  Lines 146 to 152: \<^verbatim>\<open>jsonify\<close> of the payload, the status, and the three headers that
  the function sets. \<open>content\<close> is the value whose JSON text is the body of the response;
  the headers that \<^verbatim>\<open>jsonify\<close> adds (\<^verbatim>\<open>Content-Type\<close>, \<^verbatim>\<open>Content-Length\<close>) depend on
  that text and are not part of the record. Writing the text is left to \<^verbatim>\<open>jsonify\<close>: the
  record says which value is answered.
\<close>

definition make_cors_response :: "json \<Rightarrow> nat \<Rightarrow> response" where
  "make_cors_response p st =
     \<lparr>status = st, content = p,
      cors_headers = [(lit ''Access-Control-Allow-Origin'', lit ''*''),
                 (lit ''Access-Control-Allow-Headers'', lit ''Content-Type''),
                 (lit ''Access-Control-Allow-Methods'', lit ''POST, OPTIONS'')]\<rparr>"

text \<open>Lines 211 to 219, with the constants of lines 38, 41 and 44.\<close>

definition ollama_body :: "pystr \<Rightarrow> json" where
  "ollama_body prompt =
     JObj [(lit ''model'', JStr (lit ''llama3.1'')),
           (lit ''prompt'', JStr prompt),
           (lit ''stream'', JBool False),
           (lit ''options'',
              JObj [(lit ''temperature'', JFloat (Dec False 2 (- 1))),
                    (lit ''num_predict'', JInt 1024)])]"

text \<open>\<^verbatim>\<open>Response.ok\<close>: the status is not from 400 to 599.\<close>

definition ok :: "nat \<Rightarrow> bool" where
  "ok st \<longleftrightarrow> \<not> (400 \<le> st \<and> st < 600)"

text \<open>
  Lines 210 to 265, the part of \<^verbatim>\<open>forge_plan\<close> that the specification calls dispatch: one
  call of the model server, then the three fallbacks or the sanitised plan.
\<close>

definition dispatch :: "runtime \<Rightarrow> pystr \<Rightarrow> error + response" where
  "dispatch R prompt =
     (case requests_post R (ollama_body prompt) of
        RequestException \<Rightarrow>
          Inr (make_cors_response
                 (fallback_plan (lit ''Local LLM server unavailable; use heuristic planner.'')) 502)
      | Response st text \<Rightarrow>
          if \<not> ok st then
            Inr (make_cors_response
                   (fallback_plan (lit ''Local LLM returned an error; use heuristic planner.'')) 502)
          else
            (case json_loads (envelope_limits R) text of
               None \<Rightarrow>
                 Inr (make_cors_response
                        (fallback_plan
                           (lit ''Local LLM responded with invalid JSON; using empty plan.'')) 502)
             | Some ollama_json \<Rightarrow>
                 seq (py_get ollama_json (lit ''response'') (JStr [])) (\<lambda>raw_output.
                 seq (safe_parse_llm_json_any R raw_output) (\<lambda>plan.
                 Inr (make_cors_response plan 200)))))"

text \<open>
  \<^verbatim>\<open>request.get_json(force=True, silent=False)\<close>. Flask hands the bytes of the body to
  \<^verbatim>\<open>json.loads\<close>, which detects UTF-8, UTF-16 or UTF-32, drops a byte order mark and
  decodes; \<open>body\<close> is the decoded text, \<open>None\<close> when the bytes do not decode. \<open>None\<close>
  here is the exception that leaves \<^verbatim>\<open>get_json\<close> on such bytes and on a text that
  \<^verbatim>\<open>json.loads\<close> refuses; otherwise the value is returned, whatever its type.
\<close>

definition get_json :: "runtime \<Rightarrow> pystr option \<Rightarrow> json option" where
  "get_json R b = (case b of None \<Rightarrow> None | Some s \<Rightarrow> json_loads (body_limits R) s)"

text \<open>Lines 159 to 209, then the dispatch. \<^verbatim>\<open>spec.strip()\<close> of line 70 needs a string.\<close>

definition forge_plan :: "runtime \<Rightarrow> request \<Rightarrow> error + response" where
  "forge_plan R req =
     (if request_method req = OPTIONS then Inr (make_cors_response (JObj []) 204)
      else
        case get_json R (body req) of
          None \<Rightarrow>
            Inr (make_cors_response
                   (fallback_plan (lit ''Backend received invalid JSON from frontend.'')) 400)
        | Some payload \<Rightarrow>
            seq (py_get payload (lit ''spec'') JNull) (\<lambda>spec0.
            seq (py_get payload (lit ''schema'') JNull) (\<lambda>schema0.
            seq (py_get payload (lit ''context'') JNull) (\<lambda>context0.
            let spec = py_or spec0 (JStr []);
                schema = py_or schema0 (JObj []);
                context = py_or context0 (JObj []);
                schema = (if \<not> is_dict schema then JObj [] else schema);
                context = (if \<not> is_dict context then JObj [] else context)
            in case (spec, schema, context) of
                 (JStr s, JObj sc, JObj cx) \<Rightarrow> dispatch R (build_llm_prompt R s sc cx)
               | _ \<Rightarrow> Inl AttributeError))))"

subsection \<open>The Plan invariant\<close>

text \<open>
  Section 3 of the specification: a plan is a dict whose \<^verbatim>\<open>steps\<close> is a list and whose
  \<^verbatim>\<open>notes\<close> is a string.
\<close>

definition is_plan :: "json \<Rightarrow> bool" where
  "is_plan v =
     (case v of
        JObj d \<Rightarrow>
          (case (dict_get d (lit ''steps''), dict_get d (lit ''notes'')) of
             (Some a, Some b) \<Rightarrow> is_list a \<and> is_str b
           | _ \<Rightarrow> False)
      | _ \<Rightarrow> False)"

text \<open>
  What lines 135 to 141 make of a dict: \<^verbatim>\<open>steps\<close> is kept when it is a list and set to
  the empty list otherwise, \<^verbatim>\<open>notes\<close> is kept when it is a string, printed when it is
  another value, and set to the empty string when it is missing.
\<close>

definition set_steps :: "dict \<Rightarrow> dict" where
  "set_steps d =
     (case dict_get d (lit ''steps'') of
        None \<Rightarrow> dict_set d (lit ''steps'') (JArr [])
      | Some v \<Rightarrow> if is_list v then d else dict_set d (lit ''steps'') (JArr []))"

definition set_notes :: "runtime \<Rightarrow> dict \<Rightarrow> dict" where
  "set_notes R d =
     (case dict_get d (lit ''notes'') of
        None \<Rightarrow> dict_set d (lit ''notes'') (JStr [])
      | Some v \<Rightarrow> if is_str v then d else dict_set d (lit ''notes'') (JStr (py_str R v)))"

section \<open>Running the model\<close>

text \<open>
  A runtime for the closed statements below. \<open>str_of_atom\<close> is Python's \<^verbatim>\<open>str\<close> on
  \<^verbatim>\<open>None\<close>, the booleans and the strings, which are the values those statements print;
  \<^verbatim>\<open>json.dumps\<close> of the empty dict is \<^verbatim>\<open>{}\<close>, and the requests of those statements
  carry no other schema or context; the model server gives one fixed answer. The limits
  are CPython's defaults: 4300 digits, and a nesting of 900 for what the recursion limit of
  1000 leaves below a call.
\<close>

fun str_of_atom :: "json \<Rightarrow> pystr" where
  "str_of_atom JNull = lit ''None''"
| "str_of_atom (JBool b) = (if b then lit ''True'' else lit ''False'')"
| "str_of_atom (JStr s) = s"
| "str_of_atom _ = []"

definition default_limits :: limits where
  "default_limits = \<lparr>max_depth = 900, max_digits = 4300\<rparr>"

definition stub_runtime :: "post_result \<Rightarrow> runtime" where
  "stub_runtime answer =
     \<lparr>py_str = str_of_atom, json_dumps = (\<lambda>v. lit ''{}''), requests_post = (\<lambda>b. answer),
      body_limits = default_limits, envelope_limits = default_limits,
      plan_limits = default_limits\<rparr>"

text \<open>
  The lines of a text whose only line boundary is the newline, with the empty last line
  that \<^verbatim>\<open>splitlines\<close> leaves out; used to say what \<^verbatim>\<open>splitlines\<close> makes of a fenced block.
\<close>

fun split_nl :: "pystr \<Rightarrow> pystr \<Rightarrow> pystr list" where
  "split_nl cur [] = [cur]"
| "split_nl cur (c # t) = (if c = 10 then cur # split_nl [] t else split_nl (cur @ [c]) t)"

text \<open>
  A text with each of its line ends \<^verbatim>\<open>\r\n\<close> and \<^verbatim>\<open>\r\<close> written as \<^verbatim>\<open>\n\<close>, which is what
  \<^verbatim>\<open>splitlines\<close> and \<^verbatim>\<open>"\n".join\<close> make of a text whose line boundaries are these three;
  \<open>renew\<close> does it to the text that a reader leaves.
\<close>

fun unix_newlines :: "pystr \<Rightarrow> pystr" where
  "unix_newlines [] = []"
| "unix_newlines (c # cs) =
     (if c = 13 then
        (case cs of
           [] \<Rightarrow> [10]
         | d # ds \<Rightarrow> if d = 10 then 10 # unix_newlines ds else 10 # unix_newlines cs)
      else c # unix_newlines cs)"

definition renew :: "('a \<times> pystr) option \<Rightarrow> ('a \<times> pystr) option" where
  "renew r = map_option (\<lambda>(a, rest). (a, unix_newlines rest)) r"

text \<open>
  4301 digits \<^verbatim>\<open>1\<close>: an integer one digit beyond the default limit of the interpreter.
\<close>

definition long_digits :: pystr where
  "long_digits = replicate 4301 49"

section \<open>Facts about strings\<close>

lemma is_linebreak_is_space: "is_linebreak c \<Longrightarrow> is_space c"
  by (auto simp: is_linebreak_def is_space_def)

lemma splitlines_from_no_break:
  "\<forall>c \<in> set a. \<not> is_linebreak c \<Longrightarrow>
     splitlines_from cur (a @ rest) = splitlines_from (cur @ a) rest"
proof (induction a arbitrary: cur)
  case Nil
  then show ?case by simp
next
  case (Cons c a)
  then have "c \<noteq> 13" "\<not> is_linebreak c"
    by (auto simp: is_linebreak_def)
  with Cons show ?case by simp
qed

lemma splitlines_one_line:
  assumes "s \<noteq> []" and "\<forall>c \<in> set s. \<not> is_linebreak c"
  shows "splitlines s = [s]"
  using splitlines_from_no_break [OF assms(2), of "[]" "[]"] assms(1)
  by (simp add: splitlines_def)

lemma rstrip_last: "s \<noteq> [] \<Longrightarrow> \<not> is_space (last s) \<Longrightarrow> rstrip s = s"
  by (cases s rule: rev_cases) (simp_all add: rstrip_def)

lemma lstrip_hd: "s \<noteq> [] \<Longrightarrow> \<not> is_space (hd s) \<Longrightarrow> lstrip s = s"
  by (cases s) (simp_all add: lstrip_def)

lemma strip_ends:
  "s \<noteq> [] \<Longrightarrow> \<not> is_space (hd s) \<Longrightarrow> \<not> is_space (last s) \<Longrightarrow> strip s = s"
  by (simp add: strip_def lstrip_hd rstrip_last)

lemma strip_Nil: "strip [] = []"
  by (simp add: strip_def lstrip_def rstrip_def)

section \<open>Whitespace around a JSON text\<close>

text \<open>
  \<^verbatim>\<open>strip()\<close> removes more characters than \<^verbatim>\<open>json.loads\<close> skips, and only at the two
  ends. A whitespace character after the text changes nothing when it is one of the four
  JSON ones and makes the text invalid otherwise; so a text that \<^verbatim>\<open>json.loads\<close> accepts
  is accepted, with the same value, after \<^verbatim>\<open>strip()\<close>, and it does not begin with a
  backtick.
\<close>

lemma move_simps [simp]: "move c None = None" "move c (Some (a, r)) = Some (a, r @ [c])"
  by (simp_all add: move_def)

lemma space_not_hex: "is_space c \<Longrightarrow> hex_val c = None"
  by (auto simp: is_space_def hex_val_def)

lemma space_not_digit: "is_space c \<Longrightarrow> \<not> is_digit c"
  by (auto simp: is_space_def is_digit_def)

lemma decode_u4_snoc: "hex_val c = None \<Longrightarrow> decode_u4 (r @ [c]) = move c (decode_u4 r)"
  by (induction r rule: decode_u4.induct) (auto split: option.splits)

lemma take2_snoc: "c \<noteq> b \<Longrightarrow> take 2 (r @ [c]) = [a, b] \<longleftrightarrow> take 2 r = [a, b]"
  by (cases r; cases "tl r") auto

lemma decode_u4_Some_length: "decode_u4 r = Some (u, r1) \<Longrightarrow> r = take 4 r @ r1"
  by (induction r rule: decode_u4.induct) (auto split: option.splits)

lemma lex_escape_snoc: "is_space c \<Longrightarrow> lex_escape (es @ [c]) = move c (lex_escape es)"
proof (cases es)
  case Nil
  assume "is_space c"
  then have "c \<noteq> 117" "backslash c = None"
    by (auto simp: is_space_def backslash_def)
  with Nil show ?thesis by simp
next
  case (Cons e r)
  assume s: "is_space c"
  then have h: "hex_val c = None" by (rule space_not_hex)
  from s have c: "c \<noteq> 117" by (auto simp: is_space_def)
  show ?thesis
  proof (cases "e = 117")
    case False
    with Cons show ?thesis by (cases "backslash e") auto
  next
    case True
    show ?thesis
    proof (cases "decode_u4 r")
      case None
      with True Cons h show ?thesis by (simp add: decode_u4_snoc)
    next
      case (Some p)
      obtain uni r1 where p: "p = (uni, r1)" by (cases p)
      show ?thesis
      proof (cases "take 2 r1 = [92, 117]")
        case False
        with True Cons h Some p c show ?thesis
          by (simp add: decode_u4_snoc take2_snoc del: take_append)
      next
        case t: True
        then have "drop 2 (r1 @ [c]) = drop 2 r1 @ [c]"
          by (cases r1; cases "tl r1") auto
        with t True Cons h Some p c show ?thesis
          by (cases "decode_u4 (drop 2 r1)") (auto simp: decode_u4_snoc take2_snoc simp del: take_append drop_append)
      qed
    qed
  qed
qed

lemma lex_string_snoc: "is_space c \<Longrightarrow> lex_string acc (cs @ [c]) = move c (lex_string acc cs)"
proof (induction acc cs rule: lex_string.induct)
  case (1 acc)
  then have "c \<noteq> 34" "c \<noteq> 92" by (auto simp: is_space_def)
  then show ?case by simp
next
  case (2 acc d ds)
  show ?case
  proof (cases "d = 34")
    case True
    then show ?thesis by simp
  next
    case q: False
    show ?thesis
    proof (cases "d = 92")
      case True
      show ?thesis
      proof (cases "lex_escape ds")
        case None
        with q True "2.prems" show ?thesis by (simp add: lex_escape_snoc)
      next
        case (Some p)
        obtain ch r where p: "p = (ch, r)" by (cases p)
        from "2.IH"(1) [OF q True Some [unfolded p] refl "2.prems"]
        show ?thesis using q True Some p "2.prems" by (simp add: lex_escape_snoc)
      qed
    next
      case False
      show ?thesis
      proof (cases "d \<le> 31")
        case True
        with q False show ?thesis by simp
      next
        case c: False
        from "2.IH"(2) [OF q False c "2.prems"] q False c show ?thesis by simp
      qed
    qed
  qed
qed

lemma takeWhile_snoc: "\<not> P c \<Longrightarrow> takeWhile P (xs @ [c]) = takeWhile P xs"
  by (induction xs) auto

lemma dropWhile_snoc: "\<not> P c \<Longrightarrow> dropWhile P (xs @ [c]) = dropWhile P xs @ [c]"
  by (induction xs) auto

lemma int_part_snoc: "is_space c \<Longrightarrow> int_part (cs @ [c]) = move c (int_part cs)"
  by (cases cs) (auto simp: is_space_def is_digit_def takeWhile_snoc dropWhile_snoc)

lemma frac_part_snoc: "is_space c \<Longrightarrow> frac_part (cs @ [c]) = move c (frac_part cs)"
  by (induction cs rule: frac_part.induct)
    (auto simp: is_space_def is_digit_def takeWhile_snoc dropWhile_snoc)

lemma exp_part_snoc: "is_space c \<Longrightarrow> exp_part (cs @ [c]) = move c (exp_part cs)"
proof (cases cs)
  case Nil
  assume "is_space c"
  then show ?thesis using Nil by (auto simp: is_space_def)
next
  case (Cons e r)
  assume s: "is_space c"
  then have d: "\<not> is_digit c" "c \<noteq> 45" "c \<noteq> 43"
    by (auto simp: is_space_def is_digit_def)
  show ?thesis
  proof (cases r)
    case Nil
    with Cons d show ?thesis by (simp add: Let_def)
  next
    case r: (Cons x xs)
    show ?thesis
    proof (cases xs)
      case Nil
      with Cons r d show ?thesis
        by (auto simp: Let_def takeWhile_snoc dropWhile_snoc)
    next
      case (Cons y ys)
      with \<open>cs = e # r\<close> r d show ?thesis
        by (auto simp: Let_def takeWhile_snoc dropWhile_snoc)
    qed
  qed
qed

lemma number_from_snoc:
  assumes s: "is_space c"
  shows "number_from md neg (cs @ [c]) = move c (number_from md neg cs)"
proof (cases "int_part cs")
  case None
  then show ?thesis
    by (simp add: number_from_def int_part_snoc [OF s])
next
  case (Some p)
  obtain ip cs2 where p: "p = (ip, cs2)" by (cases p)
  show ?thesis
  proof (cases "frac_part cs2")
    case None
    then show ?thesis
      using Some p
      by (cases "exp_part cs2")
        (auto simp: number_from_def int_part_snoc [OF s] frac_part_snoc [OF s]
          exp_part_snoc [OF s])
  next
    case f: (Some q)
    obtain fp cs3 where q: "q = (fp, cs3)" by (cases q)
    show ?thesis
      using Some p f q
      by (cases "exp_part cs3")
        (auto simp: number_from_def int_part_snoc [OF s] frac_part_snoc [OF s]
          exp_part_snoc [OF s])
  qed
qed

lemma lex_number_snoc:
  assumes s: "is_space c"
  shows "lex_number md (cs @ [c]) = move c (lex_number md cs)"
proof (cases cs)
  case Nil
  from s have "c \<noteq> 45" "int_part [c] = None"
    by (auto simp: is_space_def)
  with Nil show ?thesis
    by (simp add: lex_number_def number_from_def)
next
  case (Cons d ds)
  from number_from_snoc [OF s, of md False "d # ds"]
  have "number_from md False (d # ds @ [c]) = move c (number_from md False (d # ds))" by simp
  with Cons show ?thesis
    by (simp add: lex_number_def number_from_snoc [OF s])
qed

lemma space_not_number:
  assumes "is_space c"
  shows "lex_number md (c # cs) = None"
proof -
  from assms have "int_part (c # cs) = None" "c \<noteq> 45"
    by (auto simp: is_space_def)
  then show ?thesis
    by (simp add: lex_number_def number_from_def)
qed

lemma space_not_token_start:
  assumes "is_space c" "\<not> is_json_ws c"
  shows "tokenize md (c # cs) = None"
proof -
  from assms have "c \<noteq> 123" "c \<noteq> 125" "c \<noteq> 91" "c \<noteq> 93" "c \<noteq> 58" "c \<noteq> 44" "c \<noteq> 34"
    "c \<noteq> 110" "c \<noteq> 116" "c \<noteq> 102" "c \<noteq> 78" "c \<noteq> 73" "c \<noteq> 45"
    by (auto simp: is_space_def)
  with assms show ?thesis
    by (simp add: lit_def space_not_number)
qed

lemma prefix_drop_snoc:
  assumes "prefix p (d # ds)" "length p = Suc k"
  shows "drop k (ds @ [c]) = drop k ds @ [c]"
proof -
  from assms have "k \<le> length ds"
    by (auto dest: prefix_length_le)
  then show ?thesis by simp
qed

lemma prefix_snoc_space:
  assumes "is_space c" "p \<noteq> []" "\<not> is_space (last p)"
  shows "prefix p (d # ds @ [c]) = prefix p (d # ds)"
proof -
  from assms have "p \<noteq> (d # ds) @ [c]" by (metis last_snoc)
  then show ?thesis
    using prefix_snoc [of p "d # ds" c] by simp
qed

lemma tok_move: "tok t (if b then r else None) = (if b then tok t r else None)"
  by (simp add: tok_def)

lemma tokenize_snoc:
  assumes s: "is_space c"
  shows "tokenize md (u @ [c]) = (if is_json_ws c then tokenize md u else None)"
proof (induction md u rule: tokenize.induct)
  case (1 md)
  show ?case
  proof (cases "is_json_ws c")
    case True
    then show ?thesis by simp
  next
    case False
    with s have "tokenize md [c] = None" by (rule space_not_token_start)
    with False show ?thesis by (simp del: tokenize.simps)
  qed
next
  case (2 md d ds)
  note IH = "2.IH"
  have p1: "prefix (lit ''null'') (d # ds @ [c]) = prefix (lit ''null'') (d # ds)"
    by (rule prefix_snoc_space [OF s]) (simp_all add: lit_def is_space_def)
  have p2: "prefix (lit ''true'') (d # ds @ [c]) = prefix (lit ''true'') (d # ds)"
    by (rule prefix_snoc_space [OF s]) (simp_all add: lit_def is_space_def)
  have p3: "prefix (lit ''false'') (d # ds @ [c]) = prefix (lit ''false'') (d # ds)"
    by (rule prefix_snoc_space [OF s]) (simp_all add: lit_def is_space_def)
  have p4: "prefix (lit ''NaN'') (d # ds @ [c]) = prefix (lit ''NaN'') (d # ds)"
    by (rule prefix_snoc_space [OF s]) (simp_all add: lit_def is_space_def)
  have p5: "prefix (lit ''Infinity'') (d # ds @ [c]) = prefix (lit ''Infinity'') (d # ds)"
    by (rule prefix_snoc_space [OF s]) (simp_all add: lit_def is_space_def)
  have p6: "prefix (lit ''-Infinity'') (d # ds @ [c]) = prefix (lit ''-Infinity'') (d # ds)"
    by (rule prefix_snoc_space [OF s]) (simp_all add: lit_def is_space_def)
  note ps = p1 p2 p3 p4 p5 p6
  show ?case
  proof (cases "is_json_ws d")
    case True
    with IH(1) show ?thesis by simp
  next
    case w: False
    consider "d = 123" | "d = 125" | "d = 91" | "d = 93" | "d = 58" | "d = 44" | "d = 34"
      | "d \<notin> {123, 125, 91, 93, 58, 44, 34}" by auto
    then show ?thesis
    proof cases
      case 1 with w IH(2) show ?thesis by (simp add: tok_move)
    next
      case 2 with w IH(3) show ?thesis by (simp add: tok_move)
    next
      case 3 with w IH(4) show ?thesis by (simp add: tok_move)
    next
      case 4 with w IH(5) show ?thesis by (simp add: tok_move)
    next
      case 5 with w IH(6) show ?thesis by (simp add: tok_move)
    next
      case 6 with w IH(7) show ?thesis by (simp add: tok_move)
    next
      case 7
      show ?thesis
      proof (cases "lex_string [] ds")
        case None
        with 7 w show ?thesis by (simp add: lex_string_snoc [OF s])
      next
        case (Some q)
        obtain str rest where q: "q = (str, rest)" by (cases q)
        from IH(8) [OF w _ _ _ _ _ _ 7 Some [unfolded q] refl] 7
        have "tokenize md (rest @ [c]) = (if is_json_ws c then tokenize md rest else None)" by simp
        with 7 w Some q show ?thesis
          by (simp add: lex_string_snoc [OF s] tok_move)
      qed
    next
      case 8
      then have n: "d \<noteq> 123" "d \<noteq> 125" "d \<noteq> 91" "d \<noteq> 93" "d \<noteq> 58" "d \<noteq> 44" "d \<noteq> 34"
        by auto
      show ?thesis
      proof (cases "prefix (lit ''null'') (d # ds)")
        case t1: True
        from IH(9) [OF w n  t1]
        have ih: "tokenize md (drop 3 ds @ [c]) = (if is_json_ws c then tokenize md (drop 3 ds) else None)" .
        have dr: "drop 3 (ds @ [c]) = drop 3 ds @ [c]"
          by (rule prefix_drop_snoc [OF t1]) (simp add: lit_def)
        from w n  t1 ih show ?thesis
          by (simp add: ps dr tok_move del: drop_append)
      next
        case f1: False
        show ?thesis
      proof (cases "prefix (lit ''true'') (d # ds)")
        case t2: True
        from IH(10) [OF w n f1 t2]
        have ih: "tokenize md (drop 3 ds @ [c]) = (if is_json_ws c then tokenize md (drop 3 ds) else None)" .
        have dr: "drop 3 (ds @ [c]) = drop 3 ds @ [c]"
          by (rule prefix_drop_snoc [OF t2]) (simp add: lit_def)
        from w n f1 t2 ih show ?thesis
          by (simp add: ps dr tok_move del: drop_append)
      next
        case f2: False
        show ?thesis
      proof (cases "prefix (lit ''false'') (d # ds)")
        case t3: True
        from IH(11) [OF w n f1 f2 t3]
        have ih: "tokenize md (drop 4 ds @ [c]) = (if is_json_ws c then tokenize md (drop 4 ds) else None)" .
        have dr: "drop 4 (ds @ [c]) = drop 4 ds @ [c]"
          by (rule prefix_drop_snoc [OF t3]) (simp add: lit_def)
        from w n f1 f2 t3 ih show ?thesis
          by (simp add: ps dr tok_move del: drop_append)
      next
        case f3: False
        show ?thesis
      proof (cases "prefix (lit ''NaN'') (d # ds)")
        case t4: True
        from IH(12) [OF w n f1 f2 f3 t4]
        have ih: "tokenize md (drop 2 ds @ [c]) = (if is_json_ws c then tokenize md (drop 2 ds) else None)" .
        have dr: "drop 2 (ds @ [c]) = drop 2 ds @ [c]"
          by (rule prefix_drop_snoc [OF t4]) (simp add: lit_def)
        from w n f1 f2 f3 t4 ih show ?thesis
          by (simp add: ps dr tok_move del: drop_append)
      next
        case f4: False
        show ?thesis
      proof (cases "prefix (lit ''Infinity'') (d # ds)")
        case t5: True
        from IH(13) [OF w n f1 f2 f3 f4 t5]
        have ih: "tokenize md (drop 7 ds @ [c]) = (if is_json_ws c then tokenize md (drop 7 ds) else None)" .
        have dr: "drop 7 (ds @ [c]) = drop 7 ds @ [c]"
          by (rule prefix_drop_snoc [OF t5]) (simp add: lit_def)
        from w n f1 f2 f3 f4 t5 ih show ?thesis
          by (simp add: ps dr tok_move del: drop_append)
      next
        case f5: False
        show ?thesis
      proof (cases "prefix (lit ''-Infinity'') (d # ds)")
        case t6: True
        from IH(14) [OF w n f1 f2 f3 f4 f5 t6]
        have ih: "tokenize md (drop 8 ds @ [c]) = (if is_json_ws c then tokenize md (drop 8 ds) else None)" .
        have dr: "drop 8 (ds @ [c]) = drop 8 ds @ [c]"
          by (rule prefix_drop_snoc [OF t6]) (simp add: lit_def)
        from w n f1 f2 f3 f4 f5 t6 ih show ?thesis
          by (simp add: ps dr tok_move del: drop_append)
      next
        case f6: False
        show ?thesis
        proof (cases "lex_number md (d # ds)")
          case None
          with w n f1 f2 f3 f4 f5 f6 show ?thesis
            using lex_number_snoc [OF s, of md "d # ds"] by (simp add: ps)
        next
          case (Some q)
          obtain v rest where q: "q = (v, rest)" by (cases q)
          from IH(15) [OF w n f1 f2 f3 f4 f5 f6 Some [unfolded q] refl]
          have ih: "tokenize md (rest @ [c]) = (if is_json_ws c then tokenize md rest else None)" .
          from w n f1 f2 f3 f4 f5 f6 Some q ih show ?thesis
            using lex_number_snoc [OF s, of md "d # ds"] by (simp add: ps tok_move)
        qed
      qed
      qed
      qed
      qed
      qed
      qed
    qed
  qed
qed

lemma tokenize_drop_spaces:
  "\<forall>c \<in> set w. is_space c \<Longrightarrow> tokenize md (u @ w) = Some toks \<Longrightarrow> tokenize md u = Some toks"
proof (induction w rule: rev_induct)
  case Nil
  then show ?case by simp
next
  case (snoc c w)
  from snoc.prems have s: "is_space c" by simp
  from snoc.prems(2) have "tokenize md ((u @ w) @ [c]) = Some toks" by simp
  then have "tokenize md (u @ w) = Some toks"
    unfolding tokenize_snoc [OF s] by (simp split: if_splits)
  with snoc.IH snoc.prems(1) show ?case by simp
qed

lemma rstrip_decomp: "s = rstrip s @ rev (takeWhile is_space (rev s))"
proof -
  have "rev (dropWhile is_space (rev s)) @ rev (takeWhile is_space (rev s)) =
      rev (takeWhile is_space (rev s) @ dropWhile is_space (rev s))"
    by (simp only: rev_append)
  also have "\<dots> = s"
    by (simp only: takeWhile_dropWhile_id rev_rev_ident)
  finally show ?thesis by (simp add: rstrip_def)
qed

lemma tokenize_rstrip:
  assumes "tokenize md s = Some toks"
  shows "tokenize md (rstrip s) = Some toks"
proof (rule tokenize_drop_spaces)
  show "\<forall>c \<in> set (rev (takeWhile is_space (rev s))). is_space c"
    by (auto dest: set_takeWhileD)
  show "tokenize md (rstrip s @ rev (takeWhile is_space (rev s))) = Some toks"
    using assms rstrip_decomp [of s] by simp
qed

lemma tokenize_lstrip: "tokenize md s = Some toks \<Longrightarrow> tokenize md (lstrip s) = Some toks"
proof (induction s)
  case Nil
  then show ?case by (simp add: lstrip_def)
next
  case (Cons c s)
  show ?case
  proof (cases "is_space c")
    case False
    with Cons.prems show ?thesis by (simp add: lstrip_def)
  next
    case True
    show ?thesis
    proof (cases "is_json_ws c")
      case w: True
      with Cons.prems have "tokenize md s = Some toks" by simp
      from Cons.IH [OF this] True show ?thesis by (simp add: lstrip_def)
    next
      case False
      from space_not_token_start [OF True False] Cons.prems show ?thesis by simp
    qed
  qed
qed

lemma tokenize_strip: "tokenize md s = Some toks \<Longrightarrow> tokenize md (strip s) = Some toks"
  unfolding strip_def by (intro tokenize_rstrip tokenize_lstrip)

lemma json_loads_strip: "json_loads L s = Some v \<Longrightarrow> json_loads L (strip s) = Some v"
  by (auto simp: json_loads_def split: option.splits dest: tokenize_strip)

lemma tokenize_backtick: "tokenize md (96 # cs) = None"
  by (simp add: is_json_ws_def lit_def lex_number_def number_from_def)

lemma json_loads_not_fenced:
  assumes "json_loads L s = Some v"
  shows "\<not> startswith (strip s) fence"
proof
  assume "startswith (strip s) fence"
  then obtain r where "strip s = 96 # r"
    by (auto simp: startswith_def fence_def prefix_def)
  then have "tokenize (max_digits L) (strip s) = None"
    by (simp only: tokenize_backtick)
  then have "json_loads L (strip s) = None"
    by (simp add: json_loads_def)
  with json_loads_strip [OF assms] show False by simp
qed

lemma json_loads_Nil: "json_loads L [] = None"
  by (simp add: json_loads_def)

lemma strip_code_fences_json:
  assumes "json_loads L s = Some v"
  shows "strip_code_fences s = strip s"
proof -
  from assms have "s \<noteq> []" by (auto simp: json_loads_Nil)
  with json_loads_not_fenced [OF assms] show ?thesis
    by (simp add: strip_code_fences_def Let_def)
qed

lemma json_loads_strip_code_fences:
  "json_loads L s = Some v \<Longrightarrow> json_loads L (strip_code_fences s) = Some v"
  by (simp add: strip_code_fences_json json_loads_strip)

section \<open>Facts about the parser and the sanitiser\<close>

text \<open>The parser always consumes a token, so the length tests in it never fail.\<close>

lemma parse_shorter:
  "parse_value n ts = Some (v, r) \<Longrightarrow> length r < length ts"
  "parse_elems n acc ts = Some (v, r) \<Longrightarrow> length r < length ts"
  "parse_members n d ts = Some (v, r) \<Longrightarrow> length r < length ts"
proof (induction n ts and n acc ts and n d ts arbitrary: v r and v r and v r
    rule: parse_value_parse_elems_parse_members.induct)
  case (1 n)
  then show ?case by simp
next
  case (2 n t ts)
  show ?case
  proof (cases t)
    case TLBrack
    with "2.prems" have n: "n \<noteq> 0" by (auto split: if_splits)
    with TLBrack "2.prems" obtain u r0 where ts: "ts = u # r0" by (cases ts) auto
    show ?thesis
    proof (cases "u = TRBrack")
      case True
      with TLBrack n ts "2.prems" show ?thesis by simp
    next
      case False
      with TLBrack n ts "2.prems" have "parse_elems (n - 1) [] ts = Some (v, r)" by simp
      from "2.IH"(2) [OF TLBrack n ts False this] show ?thesis by simp
    qed
  next
    case TLBrace
    with "2.prems" have n: "n \<noteq> 0" by (auto split: if_splits)
    with TLBrace "2.prems" obtain u r0 where ts: "ts = u # r0" by (cases ts) auto
    show ?thesis
    proof (cases "u = TRBrace")
      case True
      with TLBrace n ts "2.prems" show ?thesis by simp
    next
      case False
      with TLBrace n ts "2.prems" have "parse_members (n - 1) [] ts = Some (v, r)" by simp
      from "2.IH"(1) [OF TLBrace n ts False this] show ?thesis by simp
    qed
  qed (use "2.prems" in auto)
next
  case (3 n acc ts)
  from "3.prems" obtain w r0 where p: "parse_value n ts = Some (w, r0)" and l: "length r0 < length ts"
    by (auto split: option.splits if_splits)
  from "3.prems" p l obtain u r' where r0: "r0 = u # r'"
    by (cases r0) auto
  show ?case
  proof (cases "u = TComma")
    case True
    with "3.prems" p l r0 have "parse_elems n (acc @ [w]) r' = Some (v, r)" by simp
    from "3.IH"(2) [OF p refl l r0 True this] l r0 show ?thesis by simp
  next
    case False
    with "3.prems" p l r0 have "r = r'" by (auto split: if_splits)
    with l r0 show ?thesis by simp
  qed
next
  case (4 n acc)
  then show ?case by simp
next
  case (5 n acc k)
  then show ?case by simp
next
  case (6 n acc k c ts)
  from "6.prems" obtain key where k: "k = TStr key" and c: "c = TColon"
    by (cases k) (auto split: if_splits)
  from "6.prems" k c obtain w r0 where p: "parse_value n ts = Some (w, r0)"
    and l: "length r0 < length ts"
    by (auto split: option.splits if_splits)
  from "6.prems" k c p l obtain u r' where r0: "r0 = u # r'"
    by (cases r0) auto
  show ?case
  proof (cases "u = TComma")
    case True
    with "6.prems" k c p l r0 have "parse_members n (dict_set acc key w) r' = Some (v, r)" by simp
    from "6.IH"(2) [OF k c p refl l r0 True this] l r0 show ?thesis by simp
  next
    case False
    with "6.prems" k c p l r0 have "r = r'" by (auto split: if_splits)
    with l r0 show ?thesis by simp
  qed
qed

lemmas run =
  safe_parse_llm_json_def safe_parse_llm_json_any_def strip_code_fences_def strip_def
  lstrip_def rstrip_def lit_def is_space_def is_linebreak_def startswith_def fence_def
  splitlines_def Let_def json_loads_def is_json_ws_def tok_def lex_number_def number_from_def
  is_digit_def nat_of_digits_def hex_val_def backslash_def seq_def ensure_steps_def
  ensure_notes_def dict_has_def dict_get_def stub_runtime_def fallback_plan_def
  not_valid_json_note_def forge_plan_def dispatch_def make_cors_response_def ok_def py_or_def
  get_json_def default_limits_def

lemma map_of_dict_set: "map_of (dict_set d k v) = (map_of d)(k \<mapsto> v)"
  by (induction d) auto

lemma dict_get_dict_set: "dict_get (dict_set d k v) k' = (if k' = k then Some v else dict_get d k')"
  by (simp add: dict_get_def map_of_dict_set)

lemma filter_dict_set:
  "\<not> P k \<Longrightarrow> filter (\<lambda>p. P (fst p)) (dict_set d k v) = filter (\<lambda>p. P (fst p)) d"
  by (induction d) auto

lemma ensure_steps_object: "ensure_steps (JObj d) = Inr (JObj (set_steps d))"
  by (auto simp: ensure_steps_def set_steps_def seq_def dict_has_def dict_get_def
      split: option.splits)

lemma ensure_notes_object: "ensure_notes R (JObj d) = Inr (JObj (set_notes R d))"
  by (auto simp: ensure_notes_def set_notes_def seq_def dict_has_def dict_get_def
      split: option.splits)

lemma ensure_steps_not_object: "\<not> is_dict v \<Longrightarrow> ensure_steps v = Inl TypeError"
  by (cases v) (auto simp: ensure_steps_def seq_def)

lemma sanitize_object:
  "json_loads (plan_limits R) (strip_code_fences t) = Some (JObj d) \<Longrightarrow>
     safe_parse_llm_json R t = Inr (JObj (set_notes R (set_steps d)))"
  by (simp add: safe_parse_llm_json_def seq_def ensure_steps_object ensure_notes_object)

lemma sanitize_not_object:
  "json_loads (plan_limits R) (strip_code_fences t) = Some v \<Longrightarrow> \<not> is_dict v \<Longrightarrow>
     safe_parse_llm_json R t = Inl TypeError"
  by (simp add: safe_parse_llm_json_def seq_def ensure_steps_not_object)

lemma sanitize_not_json:
  "json_loads (plan_limits R) (strip_code_fences t) = None \<Longrightarrow>
     safe_parse_llm_json R t = Inr (fallback_plan not_valid_json_note)"
  by (simp add: safe_parse_llm_json_def)

lemma steps_neq_notes: "lit ''steps'' \<noteq> lit ''notes''" "lit ''notes'' \<noteq> lit ''steps''"
  by (simp_all add: lit_def)

lemma is_plan_sanitized: "is_plan (JObj (set_notes R (set_steps d)))"
  by (auto simp: is_plan_def set_notes_def set_steps_def dict_get_dict_set steps_neq_notes
      split: option.splits)

lemma is_plan_fallback: "is_plan (fallback_plan note)"
  by (simp add: is_plan_def fallback_plan_def dict_get_def steps_neq_notes)

lemma sanitize_outcomes:
  "safe_parse_llm_json R t =
     (case json_loads (plan_limits R) (strip_code_fences t) of
        None \<Rightarrow> Inr (fallback_plan not_valid_json_note)
      | Some (JObj d) \<Rightarrow> Inr (JObj (set_notes R (set_steps d)))
      | Some v \<Rightarrow> Inl TypeError)"
  by (auto simp: sanitize_not_json sanitize_object sanitize_not_object
      split: option.splits json.splits)

lemma sanitize_returns_plan: "safe_parse_llm_json R t = Inr p \<Longrightarrow> is_plan p"
  by (auto simp: sanitize_outcomes is_plan_sanitized is_plan_fallback
      split: option.splits json.splits)

lemma sanitize_any_returns_plan: "safe_parse_llm_json_any R v = Inr p \<Longrightarrow> is_plan p"
  by (cases v)
    (auto simp: safe_parse_llm_json_any_def is_plan_fallback sanitize_returns_plan
      split: if_splits)

lemma dispatch_returns_plan: "dispatch R prompt = Inr resp \<Longrightarrow> is_plan (content resp)"
  by (auto simp: dispatch_def seq_def make_cors_response_def is_plan_fallback
      split: post_result.splits if_splits option.splits sum.splits
      dest: sanitize_any_returns_plan)

lemma forge_plan_returns_plan:
  "forge_plan R req = Inr resp \<Longrightarrow>
     is_plan (content resp) \<or> (request_method req = OPTIONS \<and> status resp = 204 \<and> content resp = JObj [])"
  by (auto simp: forge_plan_def seq_def make_cors_response_def is_plan_fallback Let_def
      split: if_splits option.splits sum.splits json.splits
      dest: dispatch_returns_plan)

lemma split_nl_not_Nil: "split_nl cur t \<noteq> []"
  by (induction t arbitrary: cur) auto

lemma join_split_nl: "join [10] (split_nl cur t) = cur @ t"
proof (induction t arbitrary: cur)
  case Nil
  show ?case by simp
next
  case (Cons c t)
  show ?case
  proof (cases "c = 10")
    case True
    obtain x xs where x: "split_nl [] t = x # xs"
      using split_nl_not_Nil [of "[]" t] by (cases "split_nl [] t") auto
    have "join [10] (cur # x # xs) = cur @ [10] @ join [10] (x # xs)" by simp
    also have "\<dots> = cur @ [10] @ t"
      using Cons.IH [of "[]"] x by simp
    finally show ?thesis using True x by simp
  next
    case False
    with Cons.IH [of "cur @ [c]"] show ?thesis by simp
  qed
qed

lemma splitlines_from_fence: "splitlines_from [] fence = [fence]"
  by (simp add: fence_def is_linebreak_def)

lemma strip_fence: "strip fence = fence"
  by (rule strip_ends) (simp_all add: fence_def is_space_def)

text \<open>
  The four rows of the dispatch table of section 4.4, the fourth for an envelope that is
  an object and a text that the sanitiser accepts.
\<close>

lemma dispatch_cases:
  "(requests_post R (ollama_body prompt) = RequestException \<longrightarrow>
      dispatch R prompt = Inr (make_cors_response
        (fallback_plan (lit ''Local LLM server unavailable; use heuristic planner.'')) 502)) \<and>
   (requests_post R (ollama_body prompt) = Response st text \<and> \<not> ok st \<longrightarrow>
      dispatch R prompt = Inr (make_cors_response
        (fallback_plan (lit ''Local LLM returned an error; use heuristic planner.'')) 502)) \<and>
   (requests_post R (ollama_body prompt) = Response st text \<and> ok st \<and> json_loads (envelope_limits R) text = None \<longrightarrow>
      dispatch R prompt = Inr (make_cors_response
        (fallback_plan (lit ''Local LLM responded with invalid JSON; using empty plan.'')) 502)) \<and>
   (requests_post R (ollama_body prompt) = Response st text \<and> ok st \<and>
      json_loads (envelope_limits R) text = Some (JObj envelope) \<and>
      safe_parse_llm_json_any R
        (case dict_get envelope (lit ''response'') of None \<Rightarrow> JStr [] | Some v \<Rightarrow> v) = Inr plan \<longrightarrow>
      dispatch R prompt = Inr (make_cors_response plan 200))"
  by (simp add: dispatch_def seq_def)

text \<open>
  The end-to-end example of section 8 of the specification: the request
  \<^verbatim>\<open>{"spec": "", "schema": {}, "context": {}}\<close> and a model server that answers with a
  plan of one step, as an escaped string in the \<^verbatim>\<open>response\<close> field.
\<close>

lemma end_to_end_example:
  \<open>forge_plan
     (stub_runtime (Response 200
        (lit ''{"response":"{'' @ [92] @ lit ''"steps'' @ [92] @ lit ''":[{'' @ [92]
          @ lit ''"operationType'' @ [92] @ lit ''":'' @ [92] @ lit ''"cut'' @ [92]
          @ lit ''",'' @ [92] @ lit ''"params'' @ [92] @ lit ''":{}}],'' @ [92]
          @ lit ''"notes'' @ [92] @ lit ''":'' @ [92] @ lit ''"ok'' @ [92] @ lit ''"}"}'')))
     \<lparr>request_method = POST, body = Some (lit ''{"spec": "", "schema": {}, "context": {}}'')\<rparr>
   = Inr (make_cors_response
       (JObj [(lit ''steps'',
                 JArr [JObj [(lit ''operationType'', JStr (lit ''cut'')),
                             (lit ''params'', JObj [])]]),
              (lit ''notes'', JStr (lit ''ok''))]) 200)\<close>
  by (simp add: run)

section \<open>Line ends in a JSON text\<close>

text \<open>
  A line end outside a string is whitespace to \<^verbatim>\<open>json.loads\<close>, and a string holds none:
  a text that it reads is read as the same value with \<^verbatim>\<open>\n\<close> for every line end.
\<close>

lemma renew_simps [simp]: "renew None = None" "renew (Some (a, r)) = Some (a, unix_newlines r)"
  by (simp_all add: renew_def)

lemma unix_newlines_Cons: "c \<noteq> 13 \<Longrightarrow> unix_newlines (c # cs) = c # unix_newlines cs"
  by simp

lemma unix_newlines_13: "\<exists>r. unix_newlines (13 # cs) = 10 # r"
  by (cases cs) auto

lemma takeWhile_digit_unix: "takeWhile is_digit (unix_newlines r) = takeWhile is_digit r"
  by (induction r rule: unix_newlines.induct) (auto simp: is_digit_def split: list.splits)

lemma dropWhile_digit_unix:
  "dropWhile is_digit (unix_newlines r) = unix_newlines (dropWhile is_digit r)"
  by (induction r rule: unix_newlines.induct) (auto simp: is_digit_def split: list.splits)

lemma int_part_unix: "int_part (unix_newlines cs) = renew (int_part cs)"
proof (cases cs)
  case Nil
  then show ?thesis by simp
next
  case (Cons c r)
  show ?thesis
  proof (cases "c = 13")
    case True
    from unix_newlines_13 [of r] obtain x where "unix_newlines (13 # r) = 10 # x" ..
    with Cons True show ?thesis by simp
  next
    case False
    with Cons show ?thesis
      by (simp add: takeWhile_digit_unix dropWhile_digit_unix)
  qed
qed

lemma frac_part_unix: "frac_part (unix_newlines cs) = renew (frac_part cs)"
proof (cases cs)
  case Nil
  then show ?thesis by simp
next
  case (Cons p r)
  show ?thesis
  proof (cases "p = 46")
    case False
    have "\<exists>q x. unix_newlines (p # r) = q # x \<and> q \<noteq> 46"
      using False by (cases r) auto
    then obtain q x where q: "unix_newlines (p # r) = q # x" "q \<noteq> 46" by blast
    have "frac_part (q # x) = None" using q(2) by (cases x) auto
    moreover have "frac_part (p # r) = None" using False by (cases r) auto
    ultimately show ?thesis using Cons q by simp
  next
    case True
    show ?thesis
    proof (cases r)
      case Nil
      with Cons True show ?thesis by simp
    next
      case r: (Cons d ds)
      show ?thesis
      proof (cases "d = 13")
        case True
        from unix_newlines_13 [of ds] obtain x where "unix_newlines (13 # ds) = 10 # x" ..
        with Cons \<open>p = 46\<close> r True show ?thesis by (simp add: is_digit_def)
      next
        case False
        with Cons True r show ?thesis
          by (simp add: takeWhile_digit_unix dropWhile_digit_unix)
      qed
    qed
  qed
qed

lemma exp_part_unix: "exp_part (unix_newlines cs) = renew (exp_part cs)"
proof (cases cs)
  case Nil
  then show ?thesis by simp
next
  case (Cons e r)
  show ?thesis
  proof (cases "e = 101 \<or> e = 69")
    case False
    have "\<exists>q x. unix_newlines (e # r) = q # x \<and> q \<noteq> 101 \<and> q \<noteq> 69"
      using False by (cases r) auto
    then obtain q x where q: "unix_newlines (e # r) = q # x" "q \<noteq> 101" "q \<noteq> 69" by blast
    with Cons False show ?thesis by simp
  next
    case e: True
    then have ue: "unix_newlines (e # r) = e # unix_newlines r" by auto
    show ?thesis
    proof (cases r)
      case Nil
      with Cons e ue show ?thesis by (auto simp: Let_def)
    next
      case r: (Cons d ds)
      show ?thesis
      proof (cases "d = 13")
        case True
        from unix_newlines_13 [of ds] obtain x where "unix_newlines (13 # ds) = 10 # x" ..
        with Cons e ue r True show ?thesis by (auto simp: Let_def is_digit_def)
      next
        case d: False
        then have ur: "unix_newlines (d # ds) = d # unix_newlines ds" by simp
        show ?thesis
        proof (cases "d = 45 \<or> d = 43")
          case False
          with Cons e ue r ur show ?thesis
            using takeWhile_digit_unix [of "d # ds"] dropWhile_digit_unix [of "d # ds"]
            by (auto simp: Let_def)
        next
          case sg: True
          show ?thesis
          proof (cases ds)
            case Nil
            with Cons e ue r ur sg show ?thesis by (auto simp: Let_def)
          next
            case ds: (Cons f fs)
            show ?thesis
            proof (cases "f = 13")
              case True
              from unix_newlines_13 [of fs] obtain x where "unix_newlines (13 # fs) = 10 # x" ..
              with Cons e ue r ur sg ds True show ?thesis
                by (auto simp: Let_def is_digit_def)
            next
              case False
              then have "unix_newlines (f # fs) = f # unix_newlines fs" by simp
              with Cons e ue r ur sg ds show ?thesis
                using takeWhile_digit_unix [of "f # fs"] dropWhile_digit_unix [of "f # fs"]
                by (auto simp: Let_def)
            qed
          qed
        qed
      qed
    qed
  qed
qed

lemma number_from_unix:
  "number_from md neg (unix_newlines cs) = renew (number_from md neg cs)"
proof (cases "int_part cs")
  case None
  then show ?thesis by (simp add: number_from_def int_part_unix)
next
  case (Some p)
  obtain ip cs2 where p: "p = (ip, cs2)" by (cases p)
  show ?thesis
  proof (cases "frac_part cs2")
    case None
    then show ?thesis
      using Some p
      by (cases "exp_part cs2")
        (auto simp: number_from_def int_part_unix frac_part_unix exp_part_unix)
  next
    case f: (Some q)
    obtain fp cs3 where q: "q = (fp, cs3)" by (cases q)
    show ?thesis
      using Some p f q
      by (cases "exp_part cs3")
        (auto simp: number_from_def int_part_unix frac_part_unix exp_part_unix)
  qed
qed

lemma lex_number_unix: "lex_number md (unix_newlines cs) = renew (lex_number md cs)"
proof (cases cs)
  case Nil
  then show ?thesis by (simp add: lex_number_def)
next
  case (Cons c r)
  show ?thesis
  proof (cases "c = 13")
    case True
    from unix_newlines_13 [of r] obtain x where x: "unix_newlines (13 # r) = 10 # x" ..
    have "number_from md False (10 # x) = None" "number_from md False (13 # r) = None"
      by (simp_all add: number_from_def)
    with Cons True x show ?thesis by (simp add: lex_number_def)
  next
    case False
    then have u: "unix_newlines (c # r) = c # unix_newlines r" by simp
    from number_from_unix [of md False "c # r"] u
    have "number_from md False (c # unix_newlines r) = renew (number_from md False (c # r))"
      by simp
    with Cons u show ?thesis
      by (simp add: lex_number_def number_from_unix)
  qed
qed

lemma decode_u4_unix:
  assumes "decode_u4 r = Some (u, r1)"
  shows "decode_u4 (unix_newlines r) = Some (u, unix_newlines r1)"
proof -
  from assms obtain a b c d where r: "r = a # b # c # d # r1"
    and h: "hex_val a \<noteq> None" "hex_val b \<noteq> None" "hex_val c \<noteq> None" "hex_val d \<noteq> None"
    by (induction r rule: decode_u4.induct) (auto split: option.splits)
  from h have "a \<noteq> 13" "b \<noteq> 13" "c \<noteq> 13" "d \<noteq> 13"
    by (auto simp: hex_val_def)
  then have "unix_newlines r = a # b # c # d # unix_newlines r1"
    using r by simp
  with assms r show ?thesis by (auto split: option.splits)
qed

lemma take2_unix: "take 2 (unix_newlines r) = [92, 117] \<longleftrightarrow> take 2 r = [92, 117]"
proof (cases r)
  case Nil
  then show ?thesis by simp
next
  case (Cons a r')
  show ?thesis
  proof (cases "a = 13")
    case True
    from unix_newlines_13 [of r'] obtain x where "unix_newlines (13 # r') = 10 # x" ..
    with Cons True show ?thesis by simp
  next
    case a: False
    show ?thesis
    proof (cases r')
      case Nil
      with Cons a show ?thesis by simp
    next
      case r': (Cons b r'')
      show ?thesis
      proof (cases "b = 13")
        case True
        from unix_newlines_13 [of r''] obtain x where "unix_newlines (13 # r'') = 10 # x" ..
        with Cons a r' True show ?thesis by simp
      next
        case False
        with Cons a r' show ?thesis by simp
      qed
    qed
  qed
qed

lemma drop2_unix:
  "take 2 r = [92, 117] \<Longrightarrow> drop 2 (unix_newlines r) = unix_newlines (drop 2 r)"
  by (cases r; cases "tl r") auto

lemma lex_escape_unix:
  assumes "lex_escape es = Some (ch, rest)"
  shows "lex_escape (unix_newlines es) = Some (ch, unix_newlines rest)"
proof (cases es)
  case Nil
  with assms show ?thesis by simp
next
  case (Cons e r)
  show ?thesis
  proof (cases "e = 117")
    case False
    from assms Cons False have b: "backslash e = Some ch" "rest = r" by auto
    then have "e \<noteq> 13" by (auto simp: backslash_def split: if_splits)
    with Cons False b show ?thesis by simp
  next
    case True
    then have u: "unix_newlines es = 117 # unix_newlines r" using Cons by simp
    from assms Cons True obtain uni r1 where d: "decode_u4 r = Some (uni, r1)"
      by (auto split: option.splits)
    note d' = decode_u4_unix [OF d]
    show ?thesis
    proof (cases "55296 \<le> uni \<and> uni \<le> 56319 \<and> take 2 r1 = [92, 117]")
      case False
      with assms Cons True d have "ch = uni" "rest = r1" by auto
      with False u d' show ?thesis by (auto simp: take2_unix)
    next
      case t: True
      with assms Cons True d obtain uni2 r2 where d2: "decode_u4 (drop 2 r1) = Some (uni2, r2)"
        by (auto split: option.splits)
      from decode_u4_unix [OF d2] t
      have d2': "decode_u4 (drop 2 (unix_newlines r1)) = Some (uni2, unix_newlines r2)"
        by (simp add: drop2_unix)
      from assms Cons True d t d2 u d' d2' show ?thesis
        by (auto simp: take2_unix split: if_splits)
    qed
  qed
qed

lemma lex_string_unix:
  "lex_string acc cs = Some (s, rest) \<Longrightarrow>
     lex_string acc (unix_newlines cs) = Some (s, unix_newlines rest)"
proof (induction acc cs rule: lex_string.induct)
  case (1 acc)
  then show ?case by simp
next
  case (2 acc c cs)
  show ?case
  proof (cases "c = 34")
    case True
    with "2.prems" show ?thesis by simp
  next
    case q: False
    show ?thesis
    proof (cases "c = 92")
      case True
      with q "2.prems" obtain ch r where e: "lex_escape cs = Some (ch, r)"
        and l: "lex_string (acc @ [ch]) r = Some (s, rest)"
        by (auto split: option.splits)
      from "2.IH"(1) [OF q True e refl l] lex_escape_unix [OF e] q True
      show ?thesis by simp
    next
      case False
      with q "2.prems" have c: "\<not> c \<le> 31" and l: "lex_string (acc @ [c]) cs = Some (s, rest)"
        by (auto split: if_splits)
      from c have "c \<noteq> 13" by auto
      with "2.IH"(2) [OF q False c l] q False c show ?thesis by simp
    qed
  qed
qed

lemma prefix_unix:
  "10 \<notin> set p \<Longrightarrow> 13 \<notin> set p \<Longrightarrow> prefix p (unix_newlines cs) \<longleftrightarrow> prefix p cs"
proof (induction p arbitrary: cs)
  case Nil
  then show ?case by simp
next
  case (Cons x p)
  show ?case
  proof (cases cs)
    case Nil
    then show ?thesis by simp
  next
    case c: (Cons c r)
    show ?thesis
    proof (cases "c = 13")
      case True
      from unix_newlines_13 [of r] obtain y where "unix_newlines (13 # r) = 10 # y" ..
      with c True Cons.prems show ?thesis by auto
    next
      case False
      with c Cons show ?thesis by auto
    qed
  qed
qed

lemma drop_unix:
  "13 \<notin> set p \<Longrightarrow> prefix p cs \<Longrightarrow>
     drop (length p) (unix_newlines cs) = unix_newlines (drop (length p) cs)"
proof (induction p arbitrary: cs)
  case Nil
  then show ?case by simp
next
  case (Cons x p)
  then obtain r where "cs = x # r" "prefix p r" by (auto simp: prefix_def)
  with Cons show ?case by auto
qed

lemma prefix_drop_unix:
  assumes "prefix p (c # cs)" "13 \<notin> set p" "length p = Suc k"
  shows "c \<noteq> 13" "drop k (unix_newlines cs) = unix_newlines (drop k cs)"
proof -
  from assms(1,3) obtain q where p: "p = c # q" "prefix q cs"
    by (cases p) auto
  with assms(2) show "c \<noteq> 13" by auto
  from p assms(2,3) drop_unix [of q cs] show "drop k (unix_newlines cs) = unix_newlines (drop k cs)"
    by auto
qed

lemma tokenize_unix_13: "tokenize md (unix_newlines (13 # ds)) = tokenize md (unix_newlines ds)"
  by (cases ds) (auto simp: is_json_ws_def)

lemma tokenize_unix:
  "tokenize md s = Some toks \<Longrightarrow> tokenize md (unix_newlines s) = Some toks"
proof (induction md s arbitrary: toks rule: tokenize.induct)
  case (1 md)
  then show ?case by simp
next
  case (2 md d ds)
  note IH = "2.IH"
  note pr = "2.prems"
  show ?case
  proof (cases "is_json_ws d")
    case True
    with pr have "tokenize md ds = Some toks" by simp
    from IH(1) [OF True this] have ih: "tokenize md (unix_newlines ds) = Some toks" .
    show ?thesis
    proof (cases "d = 13")
      case True
      with ih show ?thesis by (simp only: tokenize_unix_13)
    next
      case False
      with True ih show ?thesis by simp
    qed
  next
    case w: False
    then have d13: "d \<noteq> 13" by (auto simp: is_json_ws_def)
    then have u: "unix_newlines (d # ds) = d # unix_newlines ds" by simp
    have p1: "prefix (lit ''null'') (d # unix_newlines ds) = prefix (lit ''null'') (d # ds)"
      using prefix_unix [of "lit ''null''" "d # ds"] d13 by (simp add: lit_def)
    have p2: "prefix (lit ''true'') (d # unix_newlines ds) = prefix (lit ''true'') (d # ds)"
      using prefix_unix [of "lit ''true''" "d # ds"] d13 by (simp add: lit_def)
    have p3: "prefix (lit ''false'') (d # unix_newlines ds) = prefix (lit ''false'') (d # ds)"
      using prefix_unix [of "lit ''false''" "d # ds"] d13 by (simp add: lit_def)
    have p4: "prefix (lit ''NaN'') (d # unix_newlines ds) = prefix (lit ''NaN'') (d # ds)"
      using prefix_unix [of "lit ''NaN''" "d # ds"] d13 by (simp add: lit_def)
    have p5: "prefix (lit ''Infinity'') (d # unix_newlines ds) = prefix (lit ''Infinity'') (d # ds)"
      using prefix_unix [of "lit ''Infinity''" "d # ds"] d13 by (simp add: lit_def)
    have p6: "prefix (lit ''-Infinity'') (d # unix_newlines ds) = prefix (lit ''-Infinity'') (d # ds)"
      using prefix_unix [of "lit ''-Infinity''" "d # ds"] d13 by (simp add: lit_def)
    note ps = p1 p2 p3 p4 p5 p6
    consider "d = 123" | "d = 125" | "d = 91" | "d = 93" | "d = 58" | "d = 44" | "d = 34"
      | "d \<notin> {123, 125, 91, 93, 58, 44, 34}" by auto
    then show ?thesis
    proof cases
      case 1 with w pr IH(2) [OF w 1] d13 show ?thesis by (auto simp: tok_def)
    next
      case 2 with w pr IH(3) [OF w _ 2] d13 show ?thesis by (auto simp: tok_def)
    next
      case 3 with w pr IH(4) [OF w _ _ 3] d13 show ?thesis by (auto simp: tok_def)
    next
      case 4 with w pr IH(5) [OF w _ _ _ 4] d13 show ?thesis by (auto simp: tok_def)
    next
      case 5 with w pr IH(6) [OF w _ _ _ _ 5] d13 show ?thesis by (auto simp: tok_def)
    next
      case 6 with w pr IH(7) [OF w _ _ _ _ _ 6] d13 show ?thesis by (auto simp: tok_def)
    next
      case 7
      from pr w 7 obtain str rest ts where l: "lex_string [] ds = Some (str, rest)"
        and t: "tokenize md rest = Some ts" and e: "toks = TStr str # ts"
        by (auto simp: tok_def split: option.splits)
      from IH(8) [OF w _ _ _ _ _ _ 7 l refl t] 7
      have "tokenize md (unix_newlines rest) = Some ts" by simp
      with w 7 e lex_string_unix [OF l] d13 show ?thesis by (simp add: tok_def)
    next
      case 8
      then have n: "d \<noteq> 123" "d \<noteq> 125" "d \<noteq> 91" "d \<noteq> 93" "d \<noteq> 58" "d \<noteq> 44" "d \<noteq> 34"
        by auto
      show ?thesis
      proof (cases "prefix (lit ''null'') (d # ds)")
        case t1: True
        have dr: "drop 3 (unix_newlines ds) = unix_newlines (drop 3 ds)"
          by (rule prefix_drop_unix(2) [OF t1]) (simp_all add: lit_def)
        from pr w n t1 obtain ts where t: "tokenize md (drop 3 ds) = Some ts"
          and e: "toks = TVal JNull # ts" by (auto simp: tok_def)
        from IH(9) [OF w n t1 t] w n t1 e show ?thesis
          using d13 by (simp add: ps dr tok_def)
      next
        case f1: False
        show ?thesis
      proof (cases "prefix (lit ''true'') (d # ds)")
        case t2: True
        have dr: "drop 3 (unix_newlines ds) = unix_newlines (drop 3 ds)"
          by (rule prefix_drop_unix(2) [OF t2]) (simp_all add: lit_def)
        from pr w n f1 t2 obtain ts where t: "tokenize md (drop 3 ds) = Some ts"
          and e: "toks = TVal (JBool True) # ts" by (auto simp: tok_def)
        from IH(10) [OF w n f1 t2 t] w n f1 t2 e show ?thesis
          using d13 by (simp add: ps dr tok_def)
      next
        case f2: False
        show ?thesis
      proof (cases "prefix (lit ''false'') (d # ds)")
        case t3: True
        have dr: "drop 4 (unix_newlines ds) = unix_newlines (drop 4 ds)"
          by (rule prefix_drop_unix(2) [OF t3]) (simp_all add: lit_def)
        from pr w n f1 f2 t3 obtain ts where t: "tokenize md (drop 4 ds) = Some ts"
          and e: "toks = TVal (JBool False) # ts" by (auto simp: tok_def)
        from IH(11) [OF w n f1 f2 t3 t] w n f1 f2 t3 e show ?thesis
          using d13 by (simp add: ps dr tok_def)
      next
        case f3: False
        show ?thesis
      proof (cases "prefix (lit ''NaN'') (d # ds)")
        case t4: True
        have dr: "drop 2 (unix_newlines ds) = unix_newlines (drop 2 ds)"
          by (rule prefix_drop_unix(2) [OF t4]) (simp_all add: lit_def)
        from pr w n f1 f2 f3 t4 obtain ts where t: "tokenize md (drop 2 ds) = Some ts"
          and e: "toks = TVal (JFloat NaN) # ts" by (auto simp: tok_def)
        from IH(12) [OF w n f1 f2 f3 t4 t] w n f1 f2 f3 t4 e show ?thesis
          using d13 by (simp add: ps dr tok_def)
      next
        case f4: False
        show ?thesis
      proof (cases "prefix (lit ''Infinity'') (d # ds)")
        case t5: True
        have dr: "drop 7 (unix_newlines ds) = unix_newlines (drop 7 ds)"
          by (rule prefix_drop_unix(2) [OF t5]) (simp_all add: lit_def)
        from pr w n f1 f2 f3 f4 t5 obtain ts where t: "tokenize md (drop 7 ds) = Some ts"
          and e: "toks = TVal (JFloat PosInf) # ts" by (auto simp: tok_def)
        from IH(13) [OF w n f1 f2 f3 f4 t5 t] w n f1 f2 f3 f4 t5 e show ?thesis
          using d13 by (simp add: ps dr tok_def)
      next
        case f5: False
        show ?thesis
      proof (cases "prefix (lit ''-Infinity'') (d # ds)")
        case t6: True
        have dr: "drop 8 (unix_newlines ds) = unix_newlines (drop 8 ds)"
          by (rule prefix_drop_unix(2) [OF t6]) (simp_all add: lit_def)
        from pr w n f1 f2 f3 f4 f5 t6 obtain ts where t: "tokenize md (drop 8 ds) = Some ts"
          and e: "toks = TVal (JFloat NegInf) # ts" by (auto simp: tok_def)
        from IH(14) [OF w n f1 f2 f3 f4 f5 t6 t] w n f1 f2 f3 f4 f5 t6 e show ?thesis
          using d13 by (simp add: ps dr tok_def)
      next
        case f6: False
        from pr w n f1 f2 f3 f4 f5 f6 obtain v rest ts where l: "lex_number md (d # ds) = Some (v, rest)"
          and t: "tokenize md rest = Some ts" and e: "toks = TVal v # ts"
          by (auto simp: tok_def split: option.splits)
        from IH(15) [OF w n f1 f2 f3 f4 f5 f6 l refl t]
        have ih: "tokenize md (unix_newlines rest) = Some ts" .
        have "lex_number md (d # unix_newlines ds) = Some (v, unix_newlines rest)"
          using lex_number_unix [of md "d # ds"] l d13 by simp
        with w n f1 f2 f3 f4 f5 f6 e ih show ?thesis
          using d13 by (simp add: ps tok_def)
      qed
      qed
      qed
      qed
      qed
      qed
    qed
  qed
qed

lemma json_loads_unix:
  "json_loads L s = Some v \<Longrightarrow> json_loads L (unix_newlines s) = Some v"
  by (auto simp: json_loads_def split: option.splits dest: tokenize_unix)

section \<open>A fenced block around a JSON text\<close>

text \<open>
  What \<^verbatim>\<open>strip_code_fences\<close> returns for a block of an opening marker line, a text and
  a closing marker, with whitespace around it, when the line boundaries of the text are
  \<^verbatim>\<open>\n\<close> and \<^verbatim>\<open>\r\<close>; and that \<^verbatim>\<open>json.loads\<close> reads it as it reads the text.
\<close>

lemma unix_newlines_Nil_iff: "unix_newlines v = [] \<longleftrightarrow> v = []"
  by (cases v; cases "tl v") auto

lemma hd_unix_newlines:
  "v \<noteq> [] \<Longrightarrow> hd v = 10 \<or> hd v = 13 \<Longrightarrow> hd (unix_newlines v) = 10"
  by (cases v; cases "tl v") auto

lemma last_unix_newlines:
  "v \<noteq> [] \<Longrightarrow> last v = 10 \<or> last v = 13 \<Longrightarrow> last (unix_newlines v) = 10"
proof (induction v rule: unix_newlines.induct)
  case 1
  then show ?case by simp
next
  case (2 c cs)
  show ?case
  proof (cases cs)
    case Nil
    with "2.prems" show ?thesis by auto
  next
    case (Cons d ds)
    then have ne: "cs \<noteq> []" by simp
    with "2.prems" have l: "last cs = 10 \<or> last cs = 13" by simp
    show ?thesis
    proof (cases "c = 13")
      case True
      show ?thesis
      proof (cases "d = 10")
        case d: True
        show ?thesis
        proof (cases "ds = []")
          case True
          with \<open>c = 13\<close> d Cons show ?thesis by simp
        next
          case False
          with l Cons have "last ds = 10 \<or> last ds = 13" by simp
          from "2.IH"(1) [OF True Cons d False this] False True d Cons
          show ?thesis by (simp add: unix_newlines_Nil_iff)
        qed
      next
        case d: False
        have e: "unix_newlines (c # cs) = 10 # unix_newlines cs"
          using True Cons d by simp
        from "2.IH"(2) [OF True Cons d ne l] ne show ?thesis
          unfolding e by (simp add: unix_newlines_Nil_iff)
      qed
    next
      case False
      then have e: "unix_newlines (c # cs) = c # unix_newlines cs" by simp
      from "2.IH"(3) [OF False ne l] ne show ?thesis
        unfolding e by (simp add: unix_newlines_Nil_iff)
    qed
  qed
qed

lemma splitlines_unix_body:
  "\<forall>c \<in> set v. is_linebreak c \<longrightarrow> c = 10 \<or> c = 13 \<Longrightarrow> v \<noteq> [] \<Longrightarrow>
   last v = 10 \<or> last v = 13 \<Longrightarrow>
     splitlines_from cur (v @ fence) = split_nl cur (butlast (unix_newlines v)) @ [fence]"
proof (induction v arbitrary: cur rule: unix_newlines.induct)
  case 1
  then show ?case by simp
next
  case (2 c cs)
  have f: "fence = 96 # [96, 96]" by (simp add: fence_def)
  from "2.prems"(1) have c: "is_linebreak c \<longrightarrow> c = 10 \<or> c = 13"
    and cs: "\<forall>c \<in> set cs. is_linebreak c \<longrightarrow> c = 10 \<or> c = 13"
    by simp_all
  have lb: "is_linebreak 10" by (simp add: is_linebreak_def)
  show ?case
  proof (cases "c = 13")
    case True
    show ?thesis
    proof (cases cs)
      case Nil
      with True show ?thesis
        by (simp add: f is_linebreak_def)
    next
      case (Cons d ds)
      show ?thesis
      proof (cases "d = 10")
        case d: True
        show ?thesis
        proof (cases "ds = []")
          case True
          with \<open>c = 13\<close> d Cons show ?thesis
            by (simp add: splitlines_from_fence)
        next
          case False
          from cs Cons have "\<forall>c \<in> set ds. is_linebreak c \<longrightarrow> c = 10 \<or> c = 13" by simp
          moreover from "2.prems"(3) Cons False have "last ds = 10 \<or> last ds = 13" by simp
          ultimately have "splitlines_from [] (ds @ fence) =
              split_nl [] (butlast (unix_newlines ds)) @ [fence]"
            using "2.IH"(1) [OF True Cons d _ False] by simp
          with True Cons d False show ?thesis
            by (simp add: unix_newlines_Nil_iff)
        qed
      next
        case d: False
        from Cons have ne: "cs \<noteq> []" by simp
        with "2.prems"(3) have "last cs = 10 \<or> last cs = 13" by simp
        from "2.IH"(2) [OF True Cons d cs ne this]
        have ih: "splitlines_from [] (cs @ fence) =
            split_nl [] (butlast (unix_newlines cs)) @ [fence]" .
        have e1: "splitlines_from cur ((c # cs) @ fence) = cur # splitlines_from [] (cs @ fence)"
          using True Cons d by simp
        have e2: "unix_newlines (c # cs) = 10 # unix_newlines cs"
          using True Cons d by simp
        from ne show ?thesis
          unfolding e1 e2 ih by (simp add: unix_newlines_Nil_iff)
      qed
    qed
  next
    case n13: False
    show ?thesis
    proof (cases "c = 10")
      case True
      show ?thesis
      proof (cases "cs = []")
        case e: True
        with True lb show ?thesis by (simp add: splitlines_from_fence)
      next
        case False
        with "2.prems"(3) have "last cs = 10 \<or> last cs = 13" by simp
        with cs False have "splitlines_from [] (cs @ fence) =
            split_nl [] (butlast (unix_newlines cs)) @ [fence]"
          using "2.IH"(3) [OF n13] by simp
        with True lb False show ?thesis by (simp add: unix_newlines_Nil_iff)
      qed
    next
      case n10: False
      with n13 c have nb: "\<not> is_linebreak c" by simp
      from n10 n13 "2.prems"(3) have ne: "cs \<noteq> []" by auto
      with "2.prems"(3) have "last cs = 10 \<or> last cs = 13" by simp
      with cs ne have "splitlines_from (cur @ [c]) (cs @ fence) =
          split_nl (cur @ [c]) (butlast (unix_newlines cs)) @ [fence]"
        using "2.IH"(3) [OF n13] by simp
      with n10 n13 nb ne show ?thesis by (simp add: unix_newlines_Nil_iff)
    qed
  qed
qed

lemma lstrip_spaces: "\<forall>c \<in> set pre. is_space c \<Longrightarrow> lstrip (pre @ s) = lstrip s"
  by (simp add: lstrip_def dropWhile_append2)

lemma rstrip_spaces: "\<forall>c \<in> set post. is_space c \<Longrightarrow> rstrip (s @ post) = rstrip s"
  using dropWhile_append2 [of "rev post" is_space "rev s"] by (simp add: rstrip_def)

lemma strip_padded:
  assumes "\<forall>c \<in> set pre. is_space c" "\<forall>c \<in> set post. is_space c"
    and "core \<noteq> []" "\<not> is_space (hd core)" "\<not> is_space (last core)"
  shows "strip (pre @ core @ post) = core"
proof -
  have "lstrip (pre @ core @ post) = core @ post"
    using assms(1,3,4) by (simp add: lstrip_spaces lstrip_hd)
  then show ?thesis
    using assms(2,3,5) by (simp add: strip_def rstrip_spaces rstrip_last)
qed

lemma strip_code_fences_wrapped:
  assumes pre: "\<forall>c \<in> set pre. is_space c" and post: "\<forall>c \<in> set post. is_space c"
    and tag: "\<forall>c \<in> set tag. \<not> is_linebreak c"
    and v: "\<forall>c \<in> set v. is_linebreak c \<longrightarrow> c = 10 \<or> c = 13" "v \<noteq> []"
      "hd v = 10 \<or> hd v = 13" "last v = 10 \<or> last v = 13"
  shows "strip_code_fences (pre @ fence @ tag @ v @ fence @ post) =
           strip (tl (butlast (unix_newlines v)))"
proof -
  let ?s = "fence @ tag @ v @ fence"
  have "strip (pre @ ?s @ post) = ?s"
    by (rule strip_padded [OF pre post]) (simp_all add: fence_def is_space_def)
  then have s: "strip (pre @ fence @ tag @ v @ fence @ post) = ?s" by simp
  have "\<forall>c \<in> set (fence @ tag). \<not> is_linebreak c"
    using tag by (auto simp: fence_def is_linebreak_def)
  from splitlines_from_no_break [OF this, of "[]" "v @ fence"]
  have "splitlines ?s = splitlines_from (fence @ tag) (v @ fence)"
    by (simp add: splitlines_def)
  then have l: "splitlines ?s = split_nl (fence @ tag) (butlast (unix_newlines v)) @ [fence]"
    by (simp add: splitlines_unix_body [OF v(1,2,4)])
  have ne: "fence \<noteq> []" by (simp add: fence_def)
  have p: "startswith ?s fence" "startswith (fence @ tag) fence" "startswith fence fence"
    by (simp_all add: startswith_def)
  show ?thesis
  proof (cases "butlast (unix_newlines v)")
    case Nil
    with l have "splitlines ?s = [fence @ tag, fence]" by simp
    then have "strip_code_fences (pre @ fence @ tag @ v @ fence @ post) = strip []"
      unfolding strip_code_fences_def s Let_def
      using ne p by (simp add: strip_fence strip_Nil)
    with Nil show ?thesis by simp
  next
    case (Cons x m)
    then have "hd (butlast (unix_newlines v)) = hd (unix_newlines v)"
      by (cases "unix_newlines v") (auto split: if_splits)
    with Cons hd_unix_newlines [OF v(2,3)] have x: "x = 10" by simp
    with l Cons have l': "splitlines ?s = (fence @ tag) # split_nl [] m @ [fence]" by simp
    have "strip_code_fences (pre @ fence @ tag @ v @ fence @ post) =
        strip (join [10] (split_nl [] m))"
      unfolding strip_code_fences_def s Let_def l'
      using ne p by (simp add: strip_fence split_nl_not_Nil)
    with Cons show ?thesis by (simp add: join_split_nl)
  qed
qed

lemma tokenize_ws_prefix:
  "\<forall>c \<in> set w. is_json_ws c \<Longrightarrow> tokenize md (w @ s) = tokenize md s"
  by (induction w) simp_all

lemma is_json_ws_is_space: "is_json_ws c \<Longrightarrow> is_space c"
  by (auto simp: is_json_ws_def is_space_def)

lemma tokenize_ws_suffix:
  "\<forall>c \<in> set w. is_json_ws c \<Longrightarrow> tokenize md (s @ w) = tokenize md s"
proof (induction w rule: rev_induct)
  case Nil
  show ?case by simp
next
  case (snoc c w)
  then have "is_json_ws c" by simp
  with tokenize_snoc [OF is_json_ws_is_space [OF this], of md "s @ w"] snoc
  show ?case by simp
qed

lemma tokenize_tl_butlast:
  assumes "tokenize md u = Some toks" "u \<noteq> []" "hd u = 10" "last u = 10"
  shows "tokenize md (tl (butlast u)) = Some toks"
proof -
  have w: "is_json_ws 10" by (simp add: is_json_ws_def)
  from assms(2,4) have "u = butlast u @ [10]"
    using append_butlast_last_id [of u] by simp
  with assms(1) tokenize_ws_suffix [of "[10]" md "butlast u"] w
  have b: "tokenize md (butlast u) = Some toks" by simp
  show ?thesis
  proof (cases "butlast u")
    case Nil
    with b show ?thesis by simp
  next
    case (Cons x m)
    with assms(2,3) have "x = 10" by (cases u) (auto split: if_splits)
    with Cons b w show ?thesis by simp
  qed
qed

lemma tokenize_wrapped:
  assumes t: "tokenize md t = Some toks"
    and n1: "nl1 \<noteq> []" "set nl1 \<subseteq> {10, 13}" and n2: "nl2 \<noteq> []" "set nl2 \<subseteq> {10, 13}"
  shows "tokenize md (strip (tl (butlast (unix_newlines (nl1 @ t @ nl2))))) = Some toks"
proof -
  let ?v = "nl1 @ t @ nl2"
  have w1: "\<forall>c \<in> set nl1. is_json_ws c" "\<forall>c \<in> set nl2. is_json_ws c"
    using n1(2) n2(2) by (auto simp: is_json_ws_def)
  have "tokenize md ?v = tokenize md (t @ nl2)"
    by (rule tokenize_ws_prefix [OF w1(1)])
  also have "\<dots> = Some toks"
    using tokenize_ws_suffix [OF w1(2)] t by simp
  finally have "tokenize md (unix_newlines ?v) = Some toks"
    by (rule tokenize_unix)
  moreover have ne: "?v \<noteq> []" using n1(1) by simp
  moreover have "hd ?v = 10 \<or> hd ?v = 13"
    using n1 by (cases nl1) auto
  then have "hd (unix_newlines ?v) = 10"
    by (rule hd_unix_newlines [OF ne])
  moreover have "last ?v = 10 \<or> last ?v = 13"
    using n2 by (cases nl2 rule: rev_cases) auto
  then have "last (unix_newlines ?v) = 10"
    by (rule last_unix_newlines [OF ne])
  ultimately have "tokenize md (tl (butlast (unix_newlines ?v))) = Some toks"
    by (intro tokenize_tl_butlast) (simp_all add: unix_newlines_Nil_iff)
  then show ?thesis by (rule tokenize_strip)
qed

lemma json_loads_wrapped:
  assumes "json_loads L t = Some val"
    and "nl1 \<noteq> []" "set nl1 \<subseteq> {10, 13}" and "nl2 \<noteq> []" "set nl2 \<subseteq> {10, 13}"
  shows "json_loads L (strip (tl (butlast (unix_newlines (nl1 @ t @ nl2))))) = Some val"
  using assms(1) tokenize_wrapped [OF _ assms(2-5)]
  by (auto simp: json_loads_def split: option.splits)

lemma strip_code_fences_wrapped_json:
  assumes pre: "\<forall>c \<in> set pre. is_space c" and post: "\<forall>c \<in> set post. is_space c"
    and tag: "\<forall>c \<in> set tag. \<not> is_linebreak c"
    and n1: "nl1 \<noteq> []" "set nl1 \<subseteq> {10, 13}" and n2: "nl2 \<noteq> []" "set nl2 \<subseteq> {10, 13}"
    and t: "\<forall>c \<in> set t. is_linebreak c \<longrightarrow> c = 10 \<or> c = 13"
    and j: "json_loads L t = Some val"
  shows "json_loads L (strip_code_fences (pre @ fence @ tag @ nl1 @ t @ nl2 @ fence @ post)) =
           Some val"
proof -
  let ?v = "nl1 @ t @ nl2"
  have "strip_code_fences (pre @ fence @ tag @ ?v @ fence @ post) =
      strip (tl (butlast (unix_newlines ?v)))"
  proof (rule strip_code_fences_wrapped [OF pre post tag])
    show "\<forall>c \<in> set ?v. is_linebreak c \<longrightarrow> c = 10 \<or> c = 13"
      using n1(2) n2(2) t by auto
    show "?v \<noteq> []" using n1(1) by simp
    show "hd ?v = 10 \<or> hd ?v = 13" using n1 by (cases nl1) auto
    show "last ?v = 10 \<or> last ?v = 13" using n2 by (cases nl2 rule: rev_cases) auto
  qed
  with json_loads_wrapped [OF j n1 n2] show ?thesis by simp
qed

lemma strip_decomp:
  "\<exists>a b. s = a @ strip s @ b \<and> (\<forall>c \<in> set a. is_space c) \<and> (\<forall>c \<in> set b. is_space c)"
proof -
  let ?a = "takeWhile is_space s"
  let ?m = "dropWhile is_space s"
  let ?b = "rev (takeWhile is_space (rev ?m))"
  have "?m = rstrip ?m @ ?b" by (rule rstrip_decomp)
  then have "s = ?a @ strip s @ ?b"
    by (simp add: strip_def lstrip_def)
  moreover have "\<forall>c \<in> set ?a. is_space c" "\<forall>c \<in> set ?b. is_space c"
    by (auto dest: set_takeWhileD)
  ultimately show ?thesis by blast
qed

lemma strip_ends_not_space:
  assumes "strip s \<noteq> []"
  shows "\<not> is_space (hd (strip s))" "\<not> is_space (last (strip s))"
proof -
  let ?m = "dropWhile is_space s"
  from assms have r: "dropWhile is_space (rev ?m) \<noteq> []"
    by (simp add: strip_def lstrip_def rstrip_def)
  have m: "?m \<noteq> []"
  proof
    assume e: "?m = []"
    from r show False unfolding e by simp
  qed
  have "last (strip s) = hd (dropWhile is_space (rev ?m))"
    using r by (simp add: strip_def lstrip_def rstrip_def last_rev)
  with r show "\<not> is_space (last (strip s))"
    using hd_dropWhile [of is_space "rev ?m"] by simp
  have h: "\<not> is_space (hd ?m)" using m by (rule hd_dropWhile)
  from rstrip_decomp [of ?m] assms have "hd ?m = hd (rstrip ?m)"
    by (metis hd_append2 lstrip_def strip_def)
  with h show "\<not> is_space (hd (strip s))" by (simp add: strip_def lstrip_def)
qed

lemma strip_pad:
  assumes pre: "\<forall>c \<in> set pre. is_space c" and post: "\<forall>c \<in> set post. is_space c"
    and ne: "strip s \<noteq> []"
  shows "strip (pre @ s @ post) = strip s"
proof -
  from strip_decomp [of s] obtain a b where s: "s = a @ strip s @ b"
    and a: "\<forall>c \<in> set a. is_space c" and b: "\<forall>c \<in> set b. is_space c" by blast
  have "strip ((pre @ a) @ strip s @ (b @ post)) = strip s"
    by (rule strip_padded) (use pre post a b ne strip_ends_not_space [OF ne] in auto)
  moreover from s have "pre @ s @ post = pre @ (a @ strip s @ b) @ post"
    by (rule arg_cong [where f = "\<lambda>x. pre @ x @ post"])
  then have "pre @ s @ post = (pre @ a) @ strip s @ (b @ post)"
    by (simp only: append_assoc)
  ultimately show ?thesis by (simp only:)
qed

lemma strip_code_fences_pad:
  assumes pre: "\<forall>c \<in> set pre. is_space c" and post: "\<forall>c \<in> set post. is_space c"
    and j: "json_loads L s = Some v"
  shows "strip_code_fences (pre @ s @ post) = strip s"
proof -
  from json_loads_strip [OF j] have ne: "strip s \<noteq> []" by (auto simp: json_loads_Nil)
  from strip_pad [OF pre post ne] have e: "strip (pre @ s @ post) = strip s" .
  from j have "s \<noteq> []" by (auto simp: json_loads_Nil)
  with json_loads_not_fenced [OF j] e show ?thesis
    by (simp add: strip_code_fences_def Let_def)
qed

section \<open>The limits of the interpreter\<close>

text \<open>
  A limit only refuses: what \<^verbatim>\<open>json.loads\<close> reads at some limits, it reads without
  them, and so the text is in the grammar of the decoder. An integer of more digits than
  the limit is refused.
\<close>

lemma number_from_no_limit:
  "number_from md neg cs = Some r \<Longrightarrow> number_from 0 neg cs = Some r"
  by (auto simp: number_from_def split: option.splits if_splits)

lemma lex_number_no_limit: "lex_number md cs = Some r \<Longrightarrow> lex_number 0 cs = Some r"
  by (auto simp: lex_number_def split: list.splits if_splits dest: number_from_no_limit)

lemma tokenize_no_limit: "tokenize md s = Some toks \<Longrightarrow> tokenize 0 s = Some toks"
proof (induction md s arbitrary: toks rule: tokenize.induct)
  case (1 md)
  then show ?case by simp
next
  case (2 md d ds)
  note IH = "2.IH"
  note pr = "2.prems"
  show ?case
  proof (cases "is_json_ws d")
    case True
    with pr IH(1) [OF True] show ?thesis by simp
  next
    case w: False
    consider "d = 123" | "d = 125" | "d = 91" | "d = 93" | "d = 58" | "d = 44" | "d = 34"
      | "d \<notin> {123, 125, 91, 93, 58, 44, 34}" by auto
    then show ?thesis
    proof cases
      case 1 with w pr IH(2) [OF w 1] show ?thesis by (auto simp: tok_def)
    next
      case 2 with w pr IH(3) [OF w _ 2] show ?thesis by (auto simp: tok_def)
    next
      case 3 with w pr IH(4) [OF w _ _ 3] show ?thesis by (auto simp: tok_def)
    next
      case 4 with w pr IH(5) [OF w _ _ _ 4] show ?thesis by (auto simp: tok_def)
    next
      case 5 with w pr IH(6) [OF w _ _ _ _ 5] show ?thesis by (auto simp: tok_def)
    next
      case 6 with w pr IH(7) [OF w _ _ _ _ _ 6] show ?thesis by (auto simp: tok_def)
    next
      case 7
      from pr w 7 obtain str rest ts where l: "lex_string [] ds = Some (str, rest)"
        and t: "tokenize md rest = Some ts" and e: "toks = TStr str # ts"
        by (auto simp: tok_def split: option.splits)
      from IH(8) [OF w _ _ _ _ _ _ 7 l refl t] 7
      have "tokenize 0 rest = Some ts" by simp
      with w 7 e l show ?thesis by (simp add: tok_def)
    next
      case 8
      then have n: "d \<noteq> 123" "d \<noteq> 125" "d \<noteq> 91" "d \<noteq> 93" "d \<noteq> 58" "d \<noteq> 44" "d \<noteq> 34"
        by auto
      show ?thesis
      proof (cases "prefix (lit ''null'') (d # ds)")
        case t1: True
        from pr w n t1 obtain ts where t: "tokenize md (drop 3 ds) = Some ts"
          and e: "toks = TVal JNull # ts" by (auto simp: tok_def)
        from IH(9) [OF w n t1 t] w n t1 e show ?thesis by (simp add: tok_def)
      next
        case f1: False
        show ?thesis
      proof (cases "prefix (lit ''true'') (d # ds)")
        case t2: True
        from pr w n f1 t2 obtain ts where t: "tokenize md (drop 3 ds) = Some ts"
          and e: "toks = TVal (JBool True) # ts" by (auto simp: tok_def)
        from IH(10) [OF w n f1 t2 t] w n f1 t2 e show ?thesis by (simp add: tok_def)
      next
        case f2: False
        show ?thesis
      proof (cases "prefix (lit ''false'') (d # ds)")
        case t3: True
        from pr w n f1 f2 t3 obtain ts where t: "tokenize md (drop 4 ds) = Some ts"
          and e: "toks = TVal (JBool False) # ts" by (auto simp: tok_def)
        from IH(11) [OF w n f1 f2 t3 t] w n f1 f2 t3 e show ?thesis by (simp add: tok_def)
      next
        case f3: False
        show ?thesis
      proof (cases "prefix (lit ''NaN'') (d # ds)")
        case t4: True
        from pr w n f1 f2 f3 t4 obtain ts where t: "tokenize md (drop 2 ds) = Some ts"
          and e: "toks = TVal (JFloat NaN) # ts" by (auto simp: tok_def)
        from IH(12) [OF w n f1 f2 f3 t4 t] w n f1 f2 f3 t4 e show ?thesis by (simp add: tok_def)
      next
        case f4: False
        show ?thesis
      proof (cases "prefix (lit ''Infinity'') (d # ds)")
        case t5: True
        from pr w n f1 f2 f3 f4 t5 obtain ts where t: "tokenize md (drop 7 ds) = Some ts"
          and e: "toks = TVal (JFloat PosInf) # ts" by (auto simp: tok_def)
        from IH(13) [OF w n f1 f2 f3 f4 t5 t] w n f1 f2 f3 f4 t5 e show ?thesis
          by (simp add: tok_def)
      next
        case f5: False
        show ?thesis
      proof (cases "prefix (lit ''-Infinity'') (d # ds)")
        case t6: True
        from pr w n f1 f2 f3 f4 f5 t6 obtain ts where t: "tokenize md (drop 8 ds) = Some ts"
          and e: "toks = TVal (JFloat NegInf) # ts" by (auto simp: tok_def)
        from IH(14) [OF w n f1 f2 f3 f4 f5 t6 t] w n f1 f2 f3 f4 f5 t6 e show ?thesis
          by (simp add: tok_def)
      next
        case f6: False
        from pr w n f1 f2 f3 f4 f5 f6 obtain v rest ts where l: "lex_number md (d # ds) = Some (v, rest)"
          and t: "tokenize md rest = Some ts" and e: "toks = TVal v # ts"
          by (auto simp: tok_def split: option.splits)
        from IH(15) [OF w n f1 f2 f3 f4 f5 f6 l refl t]
        have ih: "tokenize 0 rest = Some ts" .
        with w n f1 f2 f3 f4 f5 f6 e lex_number_no_limit [OF l] show ?thesis
          by (simp add: tok_def)
      qed
      qed
      qed
      qed
      qed
      qed
    qed
  qed
qed

lemma parse_deeper:
  "parse_value n ts = Some (v, r) \<Longrightarrow> n \<le> m \<or> length ts \<le> m \<Longrightarrow> parse_value m ts = Some (v, r)"
  "parse_elems n acc ts = Some (v, r) \<Longrightarrow> n \<le> m \<or> length ts \<le> m \<Longrightarrow>
     parse_elems m acc ts = Some (v, r)"
  "parse_members n d ts = Some (v, r) \<Longrightarrow> n \<le> m \<or> length ts \<le> m \<Longrightarrow>
     parse_members m d ts = Some (v, r)"
proof (induction n ts and n acc ts and n d ts arbitrary: v r m and v r m and v r m
    rule: parse_value_parse_elems_parse_members.induct)
  case (1 n)
  then show ?case by simp
next
  case (2 n t ts)
  show ?case
  proof (cases t)
    case TLBrack
    with "2.prems" have n: "n \<noteq> 0" by (auto split: if_splits)
    with "2.prems"(2) have m: "m \<noteq> 0" by auto
    with TLBrack n "2.prems" obtain u r0 where ts: "ts = u # r0" by (cases ts) auto
    show ?thesis
    proof (cases "u = TRBrack")
      case True
      with TLBrack n m ts "2.prems" show ?thesis by simp
    next
      case False
      with TLBrack n ts "2.prems" have p: "parse_elems (n - 1) [] ts = Some (v, r)" by simp
      from n m "2.prems"(2) have "n - 1 \<le> m - 1 \<or> length ts \<le> m - 1" by auto
      from "2.IH"(2) [OF TLBrack n ts False p this] TLBrack m ts False show ?thesis by simp
    qed
  next
    case TLBrace
    with "2.prems" have n: "n \<noteq> 0" by (auto split: if_splits)
    with "2.prems"(2) have m: "m \<noteq> 0" by auto
    with TLBrace n "2.prems" obtain u r0 where ts: "ts = u # r0" by (cases ts) auto
    show ?thesis
    proof (cases "u = TRBrace")
      case True
      with TLBrace n m ts "2.prems" show ?thesis by simp
    next
      case False
      with TLBrace n ts "2.prems" have p: "parse_members (n - 1) [] ts = Some (v, r)" by simp
      from n m "2.prems"(2) have "n - 1 \<le> m - 1 \<or> length ts \<le> m - 1" by auto
      from "2.IH"(1) [OF TLBrace n ts False p this] TLBrace m ts False show ?thesis by simp
    qed
  qed (use "2.prems" in auto)
next
  case (3 n acc ts)
  from "3.prems" obtain w r0 where p: "parse_value n ts = Some (w, r0)" and l: "length r0 < length ts"
    by (auto split: option.splits if_splits)
  from "3.IH"(1) [OF p "3.prems"(2)] have p': "parse_value m ts = Some (w, r0)" .
  from "3.prems" p l obtain u r' where r0: "r0 = u # r'"
    by (cases r0) auto
  show ?case
  proof (cases "u = TComma")
    case True
    with "3.prems" p l r0 have e: "parse_elems n (acc @ [w]) r' = Some (v, r)" by simp
    from "3.prems"(2) l r0 have "n \<le> m \<or> length r' \<le> m" by auto
    from "3.IH"(2) [OF p refl l r0 True e this]
    have "parse_elems m (acc @ [w]) r' = Some (v, r)" .
    with p' l r0 True show ?thesis
      by (subst parse_elems.simps) (simp del: parse_elems.simps)
  next
    case False
    with "3.prems"(1) p l r0 have "u = TRBrack" "v = JArr (acc @ [w])" "r = r'"
      by (auto split: if_splits)
    with p' l r0 show ?thesis
      by (subst parse_elems.simps) (simp del: parse_elems.simps)
  qed
next
  case (4 n acc)
  then show ?case by simp
next
  case (5 n acc k)
  then show ?case by simp
next
  case (6 n acc k c ts)
  from "6.prems" obtain key where k: "k = TStr key" and c: "c = TColon"
    by (cases k) (auto split: if_splits)
  from "6.prems" k c obtain w r0 where p: "parse_value n ts = Some (w, r0)"
    and l: "length r0 < length ts"
    by (auto split: option.splits if_splits)
  from "6.prems"(2) have "n \<le> m \<or> length ts \<le> m" by auto
  from "6.IH"(1) [OF k c p this] have p': "parse_value m ts = Some (w, r0)" .
  from "6.prems" k c p l obtain u r' where r0: "r0 = u # r'"
    by (cases r0) auto
  show ?case
  proof (cases "u = TComma")
    case True
    with "6.prems" k c p l r0 have e: "parse_members n (dict_set acc key w) r' = Some (v, r)"
      by simp
    from "6.prems"(2) l r0 have "n \<le> m \<or> length r' \<le> m" by auto
    from "6.IH"(2) [OF k c p refl l r0 True e this]
    have "parse_members m (dict_set acc key w) r' = Some (v, r)" .
    with k c p' l r0 True show ?thesis by simp
  next
    case False
    with "6.prems"(1) k c p l r0 have "u = TRBrace" "v = JObj (dict_set acc key w)" "r = r'"
      by (auto split: if_splits)
    with k c p' l r0 show ?thesis by simp
  qed
qed

lemma json_loads_decoder_accepts:
  assumes "json_loads L s = Some v"
  shows "decoder_accepts s"
proof -
  from assms obtain toks where t: "tokenize (max_digits L) s = Some toks"
    and p: "parse_value (max_depth L) toks = Some (v, [])"
    by (auto simp: json_loads_def split: option.splits if_splits)
  from parse_deeper(1) [OF p, of "length toks"] tokenize_no_limit [OF t]
  show ?thesis by (simp add: decoder_accepts_def)
qed

lemma valid_json_decoder_accepts: "valid_json s \<Longrightarrow> decoder_accepts s"
  by (auto simp: valid_json_def decoder_accepts_def split: option.splits)

lemma takeWhile_digits:
  "\<forall>c \<in> set ds. is_digit c \<Longrightarrow> \<not> is_digit d \<Longrightarrow> takeWhile is_digit (ds @ d # rest) = ds"
  by (induction ds) simp_all

lemma dropWhile_digits:
  "\<forall>c \<in> set ds. is_digit c \<Longrightarrow> \<not> is_digit d \<Longrightarrow>
     dropWhile is_digit (ds @ d # rest) = d # rest"
  by (induction ds) simp_all

lemma frac_part_no_point: "p \<noteq> 46 \<Longrightarrow> frac_part (p # r) = None"
  by (cases r) simp_all

lemma exp_part_no_e: "e \<noteq> 101 \<Longrightarrow> e \<noteq> 69 \<Longrightarrow> exp_part (e # r) = None"
  by simp

lemma lex_number_digits:
  assumes ds: "\<forall>c \<in> set ds. is_digit c" and c: "49 \<le> c" "c \<le> 57"
    and d: "\<not> is_digit d" "d \<noteq> 46" "d \<noteq> 101" "d \<noteq> 69"
  shows "lex_number md (c # ds @ d # rest) =
           (if 0 < md \<and> md < Suc (length ds) then None
            else Some (JInt (int (nat_of_digits (c # ds))), d # rest))"
proof -
  from c have "c \<noteq> 45" "c \<noteq> 48" by simp_all
  moreover have "int_part (c # ds @ d # rest) = Some (c # ds, d # rest)"
    using c by (simp add: takeWhile_digits [OF ds d(1)] dropWhile_digits [OF ds d(1)])
  ultimately show ?thesis
    by (simp add: lex_number_def number_from_def frac_part_no_point [OF d(2)]
        exp_part_no_e [OF d(3,4)] del: int_part.simps frac_part.simps exp_part.simps)
qed

lemma tokenize_digits:
  assumes ds: "\<forall>c \<in> set ds. is_digit c" and c: "49 \<le> c" "c \<le> 57"
    and d: "\<not> is_digit d" "d \<noteq> 46" "d \<noteq> 101" "d \<noteq> 69"
  shows "tokenize md (c # ds @ d # rest) =
           (if 0 < md \<and> md < Suc (length ds) then None
            else tok (TVal (JInt (int (nat_of_digits (c # ds))))) (tokenize md (d # rest)))"
proof -
  from c have "\<not> is_json_ws c" "c \<notin> {123, 125, 91, 93, 58, 44, 34}"
    "\<not> prefix (lit ''null'') (c # ds @ d # rest)"
    "\<not> prefix (lit ''true'') (c # ds @ d # rest)"
    "\<not> prefix (lit ''false'') (c # ds @ d # rest)"
    "\<not> prefix (lit ''NaN'') (c # ds @ d # rest)"
    "\<not> prefix (lit ''Infinity'') (c # ds @ d # rest)"
    "\<not> prefix (lit ''-Infinity'') (c # ds @ d # rest)"
    by (auto simp: is_json_ws_def lit_def)
  then show ?thesis
    by (simp add: lex_number_digits [OF assms] del: tokenize.simps)
      (subst tokenize.simps, simp add: lex_number_digits [OF assms])
qed

lemma long_digits_Cons: "long_digits = 49 # replicate 4300 49"
  unfolding long_digits_def by (simp only: replicate_Suc [symmetric]) simp

lemma tokenize_long_digits:
  assumes d: "\<not> is_digit d" "d \<noteq> 46" "d \<noteq> 101" "d \<noteq> 69"
  shows "tokenize md (long_digits @ d # rest) =
           (if 0 < md \<and> md < 4301 then None
            else tok (TVal (JInt (int (nat_of_digits long_digits)))) (tokenize md (d # rest)))"
proof -
  have "tokenize md (49 # replicate 4300 49 @ d # rest) =
      (if 0 < md \<and> md < Suc (length (replicate 4300 (49::nat))) then None
       else tok (TVal (JInt (int (nat_of_digits (49 # replicate 4300 49)))))
              (tokenize md (d # rest)))"
    by (rule tokenize_digits) (use d in \<open>simp_all add: is_digit_def\<close>)
  then show ?thesis
    by (simp add: long_digits_Cons del: tokenize.simps replicate.simps)
qed

section \<open>The sanitiser on a text that is JSON but not an object\<close>

text \<open>
  C1 says that \<^verbatim>\<open>safe_parse_llm_json\<close> never raises and always returns a plan, also when
  the text is a JSON list, string, number, boolean or \<^verbatim>\<open>null\<close>. It returns a plan whenever
  it returns (\<open>sanitize_returns_plan\<close>), and it returns on every text that is not JSON and
  on every JSON object (\<open>sanitize_outcomes\<close>). On the text \<^verbatim>\<open>[]\<close> it raises: the value is
  a list, \<^verbatim>\<open>"steps" not in data\<close> holds, and \<^verbatim>\<open>data["steps"] = []\<close> of line 136 is a
  \<^verbatim>\<open>TypeError\<close>, outside the \<^verbatim>\<open>try\<close>.
\<close>

theorem safe_parse_llm_json_raises_on_list:
  "safe_parse_llm_json (stub_runtime RequestException) (lit ''[]'') = Inl TypeError"
  by (simp add: run)

section \<open>The handler on a body that is JSON but not an object\<close>

text \<open>
  C2 says that no request makes an exception leave \<^verbatim>\<open>forge_plan\<close>. Every response it
  returns carries a plan (\<open>forge_plan_returns_plan\<close>), but on the body \<^verbatim>\<open>[]\<close> it returns
  none: \<^verbatim>\<open>get_json\<close> gives a list, and \<^verbatim>\<open>payload.get("spec")\<close> of line 192 is an
  \<^verbatim>\<open>AttributeError\<close>.
\<close>

theorem forge_plan_raises_on_list_body:
  "forge_plan (stub_runtime RequestException) \<lparr>request_method = POST, body = Some (lit ''[]'')\<rparr>
     = Inl AttributeError"
  by (simp add: run)

section \<open>The dispatch on an envelope that is JSON but not an object\<close>

text \<open>
  C3 says that the dispatch ends in one of four ways, the fourth with status 200. The
  first three rows hold, and the fourth for an envelope that is an object
  (\<open>dispatch_cases\<close>). On an answer with status 200 and the text \<^verbatim>\<open>[]\<close> there is no status:
  \<^verbatim>\<open>ollama_json.get("response", "")\<close> of line 262 is an \<^verbatim>\<open>AttributeError\<close>.
\<close>

theorem dispatch_raises_on_list_envelope:
  "dispatch (stub_runtime (Response 200 (lit ''[]''))) (lit ''prompt'') = Inl AttributeError"
  by (simp add: run)

section \<open>Text that is not JSON\<close>

text \<open>
  C4, as the code has it: when \<^verbatim>\<open>json.loads\<close> refuses the text that \<^verbatim>\<open>strip_code_fences\<close>
  returns, \<^verbatim>\<open>safe_parse_llm_json\<close> returns exactly the plan with no steps and the note
  \<^verbatim>\<open>LLM output was not valid JSON; falling back to empty plan.\<close> It refuses every text
  outside the grammar it reads (\<open>decoder_accepts\<close>: JSON and the names \<^verbatim>\<open>NaN\<close>,
  \<^verbatim>\<open>Infinity\<close> and \<^verbatim>\<open>-Infinity\<close>), whatever the limits of the interpreter, and every
  text beyond one of these limits.
\<close>

theorem safe_parse_llm_json_fallback:
  assumes "\<not> decoder_accepts (strip_code_fences t)
           \<or> json_loads (plan_limits R) (strip_code_fences t) = None"
  shows "safe_parse_llm_json R t = Inr (fallback_plan not_valid_json_note)"
proof -
  have "json_loads (plan_limits R) (strip_code_fences t) = None"
  proof (cases "json_loads (plan_limits R) (strip_code_fences t)")
    case None
    then show ?thesis .
  next
    case (Some v)
    with assms json_loads_decoder_accepts [OF Some] show ?thesis by simp
  qed
  then show ?thesis by (rule sanitize_not_json)
qed

theorem safe_parse_llm_json_fallback_witness:
  "\<not> decoder_accepts (strip_code_fences (lit ''Here is the plan'')) \<and>
   safe_parse_llm_json (stub_runtime RequestException) (lit ''Here is the plan'')
     = Inr (fallback_plan not_valid_json_note)"
proof -
  have n: "\<not> decoder_accepts (strip_code_fences (lit ''Here is the plan''))"
    by (simp add: decoder_accepts_def run)
  from safe_parse_llm_json_fallback [of "lit ''Here is the plan''" "stub_runtime RequestException"] n
  show ?thesis by simp
qed

text \<open>
  C4 as stated, for every input text that is not valid JSON, fails on a text with one of
  the three names: \<^verbatim>\<open>{"x": NaN}\<close> is not valid JSON, \<^verbatim>\<open>json.loads\<close> reads it, and the
  result is that object with no steps and the empty note, not the fallback plan.
\<close>

theorem nan_text_not_json_yet_parsed:
  \<open>\<not> valid_json (lit ''{"x": NaN}'') \<and>
   safe_parse_llm_json (stub_runtime RequestException) (lit ''{"x": NaN}'')
     = Inr (JObj [(lit ''x'', JFloat NaN), (lit ''steps'', JArr []), (lit ''notes'', JStr [])]) \<and>
   JObj [(lit ''x'', JFloat NaN), (lit ''steps'', JArr []), (lit ''notes'', JStr [])]
     \<noteq> fallback_plan not_valid_json_note\<close>
  by (simp add: valid_json_def run)

section \<open>Round trip of a plan\<close>

text \<open>
  C5, as the code has it. Let \<^verbatim>\<open>json.loads\<close>, at the limits of the interpreter, read a text
  as an object whose \<^verbatim>\<open>steps\<close> is a list and whose \<^verbatim>\<open>notes\<close> is a string. Then
  \<^verbatim>\<open>safe_parse_llm_json\<close> returns that object, steps and notes and every other key
  unchanged, when the text is given as it is or with whitespace (\<^verbatim>\<open>str.isspace\<close>) before
  and after; and when it is given as a fenced block: whitespace, the marker and a tag on
  one line, a line end (\<^verbatim>\<open>\n\<close>, \<^verbatim>\<open>\r\<close> or \<^verbatim>\<open>\r\n\<close>), the text, a line end, the marker and
  whitespace, provided the text holds no line boundary other than \<^verbatim>\<open>\n\<close> and \<^verbatim>\<open>\r\<close>.
\<close>

theorem safe_parse_llm_json_round_trip:
  assumes "json_loads (plan_limits R) t = Some (JObj d)"
    and "dict_get d (lit ''steps'') = Some (JArr xs)"
    and "dict_get d (lit ''notes'') = Some (JStr n)"
    and "\<forall>c \<in> set pre. is_space c"
    and "\<forall>c \<in> set post. is_space c"
  shows "safe_parse_llm_json R (pre @ t @ post) = Inr (JObj d) \<and>
    ((\<forall>c \<in> set tag. \<not> is_linebreak c) \<and>
     nl1 \<in> {[10], [13], [13, 10]} \<and> nl2 \<in> {[10], [13], [13, 10]} \<and>
     (\<forall>c \<in> set t. is_linebreak c \<longrightarrow> c = 10 \<or> c = 13) \<longrightarrow>
       safe_parse_llm_json R (pre @ fence @ tag @ nl1 @ t @ nl2 @ fence @ post) = Inr (JObj d))"
proof -
  have same: "set_notes R (set_steps d) = d"
    using assms(2,3) by (simp add: set_notes_def set_steps_def)
  have "json_loads (plan_limits R) (strip_code_fences (pre @ t @ post)) = Some (JObj d)"
    using strip_code_fences_pad [OF assms(4,5,1)] json_loads_strip [OF assms(1)] by simp
  from sanitize_object [OF this] same
  have a: "safe_parse_llm_json R (pre @ t @ post) = Inr (JObj d)" by simp
  have b: "safe_parse_llm_json R (pre @ fence @ tag @ nl1 @ t @ nl2 @ fence @ post) = Inr (JObj d)"
    if h: "(\<forall>c \<in> set tag. \<not> is_linebreak c) \<and>
     nl1 \<in> {[10], [13], [13, 10]} \<and> nl2 \<in> {[10], [13], [13, 10]} \<and>
     (\<forall>c \<in> set t. is_linebreak c \<longrightarrow> c = 10 \<or> c = 13)"
  proof -
    from h have tag: "\<forall>c \<in> set tag. \<not> is_linebreak c"
      and t: "\<forall>c \<in> set t. is_linebreak c \<longrightarrow> c = 10 \<or> c = 13" by simp_all
    from h have n1: "nl1 \<noteq> []" "set nl1 \<subseteq> {10, 13}" by auto
    from h have n2: "nl2 \<noteq> []" "set nl2 \<subseteq> {10, 13}" by auto
    from strip_code_fences_wrapped_json [OF assms(4,5) tag n1 n2 t assms(1)]
    have "json_loads (plan_limits R)
        (strip_code_fences (pre @ fence @ tag @ nl1 @ t @ nl2 @ fence @ post)) = Some (JObj d)" .
    from sanitize_object [OF this] same show ?thesis by simp
  qed
  from a b show ?thesis by blast
qed

theorem safe_parse_llm_json_round_trip_witness:
  \<open>safe_parse_llm_json (stub_runtime RequestException)
       ([160] @ lit ''{"steps": [], "notes": "ok"}'' @ [10])
     = Inr (JObj [(lit ''steps'', JArr []), (lit ''notes'', JStr (lit ''ok''))]) \<and>
   safe_parse_llm_json (stub_runtime RequestException)
       ([160] @ fence @ lit ''json'' @ [13, 10] @ lit ''{"steps": [], "notes": "ok"}''
          @ [13, 10] @ fence @ [10])
     = Inr (JObj [(lit ''steps'', JArr []), (lit ''notes'', JStr (lit ''ok''))])\<close>
proof -
  let ?R = "stub_runtime RequestException"
  let ?t = \<open>lit ''{"steps": [], "notes": "ok"}''\<close>
  let ?d = "[(lit ''steps'', JArr []), (lit ''notes'', JStr (lit ''ok''))]"
  have p: "json_loads (plan_limits ?R) ?t = Some (JObj ?d)"
    by (simp add: run)
  have s: "dict_get ?d (lit ''steps'') = Some (JArr [])"
    by (simp add: dict_get_def)
  have n: "dict_get ?d (lit ''notes'') = Some (JStr (lit ''ok''))"
    by (simp add: dict_get_def lit_def)
  have pre: "\<forall>c \<in> set [160]. is_space c" and post: "\<forall>c \<in> set [10]. is_space c"
    by (simp_all add: is_space_def)
  have tag: "\<forall>c \<in> set (lit ''json''). \<not> is_linebreak c"
    by (simp add: lit_def is_linebreak_def)
  have t: "\<forall>c \<in> set ?t. is_linebreak c \<longrightarrow> c = 10 \<or> c = 13"
    by (simp add: lit_def is_linebreak_def)
  from safe_parse_llm_json_round_trip [OF p s n pre post,
      where tag = "lit ''json''" and ?nl1.0 = "[13, 10]" and ?nl2.0 = "[13, 10]"] tag t
  show ?thesis by simp
qed

text \<open>
  C5 as stated, for every JSON text of a plan with or without fence markers, fails beyond
  a limit of the interpreter and for markers on the line of the text. A plan whose steps
  hold an integer of 4301 digits is valid JSON, and \<^verbatim>\<open>json.loads\<close> without the digit limit
  reads it as a plan; at the limit of 4300 digits \<^verbatim>\<open>json.loads\<close> raises \<^verbatim>\<open>ValueError\<close>,
  which line 127 catches. A plan wrapped in markers on one line is left wrapped by the
  guard of line 108. Both give the fallback plan, whose steps and note are not those of
  the text.
\<close>

theorem round_trip_fails_on_long_integer:
  \<open>valid_json (lit ''{"steps": ['' @ long_digits @ lit ''], "notes": "n"}'') \<and>
   json_loads \<lparr>max_depth = 900, max_digits = 0\<rparr>
       (lit ''{"steps": ['' @ long_digits @ lit ''], "notes": "n"}'')
     = Some (JObj [(lit ''steps'', JArr [JInt (int (nat_of_digits long_digits))]),
                   (lit ''notes'', JStr (lit ''n''))]) \<and>
   safe_parse_llm_json (stub_runtime RequestException)
       (lit ''{"steps": ['' @ long_digits @ lit ''], "notes": "n"}'')
     = Inr (JObj [(lit ''steps'', JArr []), (lit ''notes'', JStr not_valid_json_note)]) \<and>
   safe_parse_llm_json (stub_runtime RequestException)
       (lit ''```{"steps": [], "notes": "ok"}```'')
     = Inr (JObj [(lit ''steps'', JArr []), (lit ''notes'', JStr not_valid_json_note)]) \<and>
   not_valid_json_note \<noteq> lit ''n'' \<and> not_valid_json_note \<noteq> lit ''ok''\<close>
proof (intro conjI)
  show \<open>valid_json (lit ''{"steps": ['' @ long_digits @ lit ''], "notes": "n"}'')\<close>
    by (simp add: valid_json_def tokenize_long_digits run)
  show \<open>json_loads \<lparr>max_depth = 900, max_digits = 0\<rparr>
       (lit ''{"steps": ['' @ long_digits @ lit ''], "notes": "n"}'')
     = Some (JObj [(lit ''steps'', JArr [JInt (int (nat_of_digits long_digits))]),
                   (lit ''notes'', JStr (lit ''n''))])\<close>
    by (simp add: tokenize_long_digits run)
  show \<open>safe_parse_llm_json (stub_runtime RequestException)
       (lit ''{"steps": ['' @ long_digits @ lit ''], "notes": "n"}'')
     = Inr (JObj [(lit ''steps'', JArr []), (lit ''notes'', JStr not_valid_json_note)])\<close>
    by (simp add: tokenize_long_digits run)
  show \<open>safe_parse_llm_json (stub_runtime RequestException)
       (lit ''```{"steps": [], "notes": "ok"}```'')
     = Inr (JObj [(lit ''steps'', JArr []), (lit ''notes'', JStr not_valid_json_note)])\<close>
    by (simp add: run)
  show "not_valid_json_note \<noteq> lit ''n''" "not_valid_json_note \<noteq> lit ''ok''"
    by (simp_all add: not_valid_json_note_def lit_def)
qed

text \<open>
  The proviso on the line boundaries of a fenced text is where the code departs from
  its own purpose, which is to remove the markers and nothing else: \<^verbatim>\<open>splitlines\<close> cuts
  the text at U+0085, U+2028 and U+2029 too, which a JSON string may hold, and \<^verbatim>\<open>join\<close>
  writes a newline in their place, which no JSON string may hold. A plan between marker
  lines whose note holds U+0085 is lost to the fallback plan, though the same plan
  without the markers comes back as it is.
\<close>

lemma fenced_next_line_altered:
  \<open>safe_parse_llm_json (stub_runtime RequestException)
       (lit ''{"steps": [], "notes": "a'' @ [133] @ lit ''b"}'')
     = Inr (JObj [(lit ''steps'', JArr []), (lit ''notes'', JStr [97, 133, 98])]) \<and>
   strip_code_fences
       (lit ''```json'' @ [10] @ lit ''{"steps": [], "notes": "a'' @ [133] @ lit ''b"}'' @ [10]
          @ lit ''```'')
     = lit ''{"steps": [], "notes": "a'' @ [10] @ lit ''b"}'' \<and>
   safe_parse_llm_json (stub_runtime RequestException)
       (lit ''```json'' @ [10] @ lit ''{"steps": [], "notes": "a'' @ [133] @ lit ''b"}'' @ [10]
          @ lit ''```'')
     = Inr (JObj [(lit ''steps'', JArr []), (lit ''notes'', JStr not_valid_json_note)])\<close>
  by (simp add: run)

section \<open>Defaults for steps and notes\<close>

text \<open>
  C7, as the code has it: when \<^verbatim>\<open>json.loads\<close>, at the limits of the interpreter, reads the
  text, as it is given or as \<^verbatim>\<open>strip_code_fences\<close> returns it, as an object whose
  \<^verbatim>\<open>steps\<close> is missing or is not a list, \<^verbatim>\<open>safe_parse_llm_json\<close> returns a dict whose
  \<^verbatim>\<open>steps\<close> is the empty list, and whose \<^verbatim>\<open>notes\<close> is the empty string when the object
  had none, the object's note when that was a string, and \<^verbatim>\<open>str\<close> of the object's note
  otherwise.
\<close>

theorem safe_parse_llm_json_defaults:
  assumes "json_loads (plan_limits R) t = Some (JObj d)
           \<or> json_loads (plan_limits R) (strip_code_fences t) = Some (JObj d)"
    and "dict_get d (lit ''steps'') = None
         \<or> (\<exists>v. dict_get d (lit ''steps'') = Some v \<and> \<not> is_list v)"
  shows "\<exists>d'. safe_parse_llm_json R t = Inr (JObj d') \<and>
      dict_get d' (lit ''steps'') = Some (JArr []) \<and>
      dict_get d' (lit ''notes'') =
        Some (JStr (case dict_get d (lit ''notes'') of
                      None \<Rightarrow> []
                    | Some (JStr n) \<Rightarrow> n
                    | Some v \<Rightarrow> py_str R v))"
proof -
  let ?d1 = "dict_set d (lit ''steps'') (JArr [])"
  have s: "set_steps d = ?d1"
    using assms(2) by (auto simp: set_steps_def)
  have n1: "dict_get ?d1 (lit ''notes'') = dict_get d (lit ''notes'')"
    by (simp add: dict_get_dict_set steps_neq_notes)
  from assms(1) have "json_loads (plan_limits R) (strip_code_fences t) = Some (JObj d)"
    by (auto dest: json_loads_strip_code_fences)
  from sanitize_object [OF this] s
  have a: "safe_parse_llm_json R t = Inr (JObj (set_notes R ?d1))" by simp
  have b: "dict_get (set_notes R ?d1) (lit ''steps'') = Some (JArr [])"
    by (auto simp: set_notes_def dict_get_dict_set steps_neq_notes split: option.splits)
  have c: "dict_get (set_notes R ?d1) (lit ''notes'') =
        Some (JStr (case dict_get d (lit ''notes'') of
                      None \<Rightarrow> []
                    | Some (JStr n) \<Rightarrow> n
                    | Some v \<Rightarrow> py_str R v))"
    unfolding set_notes_def n1
    by (cases "dict_get d (lit ''notes'')")
      (auto simp: dict_get_dict_set n1 steps_neq_notes split: json.splits)
  from a b c show ?thesis by blast
qed

theorem safe_parse_llm_json_defaults_witness:
  \<open>safe_parse_llm_json (stub_runtime RequestException)
       (lit ''```json'' @ [10] @ lit ''{"steps": 3, "notes": null}'' @ [10] @ lit ''```'')
     = Inr (JObj [(lit ''steps'', JArr []), (lit ''notes'', JStr (lit ''None''))])\<close>
proof -
  let ?R = "stub_runtime RequestException"
  let ?t = \<open>lit ''```json'' @ [10] @ lit ''{"steps": 3, "notes": null}'' @ [10] @ lit ''```''\<close>
  let ?d = "[(lit ''steps'', JInt 3), (lit ''notes'', JNull)]"
  have p: "json_loads (plan_limits ?R) (strip_code_fences ?t) = Some (JObj ?d)"
    by (simp add: run)
  have s: "dict_get ?d (lit ''steps'') = None
         \<or> (\<exists>v. dict_get ?d (lit ''steps'') = Some v \<and> \<not> is_list v)"
    by (simp add: dict_get_def)
  from safe_parse_llm_json_defaults [OF disjI2 [OF p] s] obtain d' where
    "safe_parse_llm_json ?R ?t = Inr (JObj d')" by blast
  moreover have "safe_parse_llm_json ?R ?t
     = Inr (JObj [(lit ''steps'', JArr []), (lit ''notes'', JStr (lit ''None''))])"
    by (simp add: run)
  ultimately show ?thesis by simp
qed

text \<open>
  C7 as stated, for every JSON object, fails beyond a limit of the interpreter: an object
  without steps that holds an integer of 4301 digits is valid JSON, and \<^verbatim>\<open>json.loads\<close>
  without the digit limit reads it as an object; at the limit of 4300 digits
  \<^verbatim>\<open>json.loads\<close> raises \<^verbatim>\<open>ValueError\<close>, and the result is the fallback plan, in which the
  note of the object is not preserved.
\<close>

theorem note_lost_beyond_digit_limit:
  \<open>valid_json (lit ''{"notes": "keep me", "x": '' @ long_digits @ lit ''}'') \<and>
   json_loads \<lparr>max_depth = 900, max_digits = 0\<rparr>
       (lit ''{"notes": "keep me", "x": '' @ long_digits @ lit ''}'')
     = Some (JObj [(lit ''notes'', JStr (lit ''keep me'')),
                   (lit ''x'', JInt (int (nat_of_digits long_digits)))]) \<and>
   safe_parse_llm_json (stub_runtime RequestException)
       (lit ''{"notes": "keep me", "x": '' @ long_digits @ lit ''}'')
     = Inr (JObj [(lit ''steps'', JArr []), (lit ''notes'', JStr not_valid_json_note)]) \<and>
   not_valid_json_note \<noteq> lit ''keep me''\<close>
proof (intro conjI)
  show \<open>valid_json (lit ''{"notes": "keep me", "x": '' @ long_digits @ lit ''}'')\<close>
    by (simp add: valid_json_def tokenize_long_digits run)
  show \<open>json_loads \<lparr>max_depth = 900, max_digits = 0\<rparr>
       (lit ''{"notes": "keep me", "x": '' @ long_digits @ lit ''}'')
     = Some (JObj [(lit ''notes'', JStr (lit ''keep me'')),
                   (lit ''x'', JInt (int (nat_of_digits long_digits)))])\<close>
    by (simp add: tokenize_long_digits run)
  show \<open>safe_parse_llm_json (stub_runtime RequestException)
       (lit ''{"notes": "keep me", "x": '' @ long_digits @ lit ''}'')
     = Inr (JObj [(lit ''steps'', JArr []), (lit ''notes'', JStr not_valid_json_note)])\<close>
    by (simp add: tokenize_long_digits run)
  show "not_valid_json_note \<noteq> lit ''keep me''"
    by (simp add: not_valid_json_note_def lit_def)
qed

section \<open>The prompt\<close>



section \<open>An envelope without the response field\<close>

text \<open>
  C9: when the model server answers with a success status and an envelope that
  \<^verbatim>\<open>json.loads\<close> reads as an object without the key \<^verbatim>\<open>response\<close>, the dispatch hands the
  empty string to the sanitiser and returns status 200 with the plan of no steps and the
  note \<^verbatim>\<open>LLM output was not valid JSON; falling back to empty plan.\<close>
\<close>

theorem dispatch_missing_response_field:
  assumes "requests_post R (ollama_body prompt) = Response st text"
    and "ok st"
    and "json_loads (envelope_limits R) text = Some (JObj envelope)"
    and "dict_get envelope (lit ''response'') = None"
  shows "dispatch R prompt = Inr (make_cors_response (fallback_plan not_valid_json_note) 200)"
proof -
  have "safe_parse_llm_json R [] = Inr (fallback_plan not_valid_json_note)"
    by (simp add: safe_parse_llm_json_def strip_code_fences_def json_loads_Nil)
  with assms show ?thesis
    by (simp add: dispatch_def seq_def safe_parse_llm_json_any_def)
qed

theorem dispatch_missing_response_field_witness:
  \<open>dispatch (stub_runtime (Response 200 (lit ''{"done": true}''))) (lit ''prompt'')
     = Inr \<lparr>status = 200,
            content = JObj [(lit ''steps'', JArr []),
              (lit ''notes'',
               JStr (lit ''LLM output was not valid JSON; falling back to empty plan.''))],
            cors_headers = [(lit ''Access-Control-Allow-Origin'', lit ''*''),
                       (lit ''Access-Control-Allow-Headers'', lit ''Content-Type''),
                       (lit ''Access-Control-Allow-Methods'', lit ''POST, OPTIONS'')]\<rparr>\<close>
proof -
  let ?R = \<open>stub_runtime (Response 200 (lit ''{"done": true}''))\<close>
  have a: \<open>requests_post ?R (ollama_body (lit ''prompt'')) = Response 200 (lit ''{"done": true}'')\<close>
    by (simp add: stub_runtime_def)
  have b: "ok 200" by (simp add: ok_def)
  have c: \<open>json_loads (envelope_limits ?R) (lit ''{"done": true}'')
      = Some (JObj [(lit ''done'', JBool True)])\<close>
    by (simp add: run)
  have d: "dict_get [(lit ''done'', JBool True)] (lit ''response'') = None"
    by (simp add: dict_get_def lit_def)
  from dispatch_missing_response_field [OF a b c d] show ?thesis
    by (simp add: make_cors_response_def fallback_plan_def not_valid_json_note_def)
qed

section \<open>The other keys of the object\<close>

text \<open>
  C10: when the text parses as a JSON object, that is when \<^verbatim>\<open>json.loads\<close>, at the limits
  of the interpreter, reads it as an object, as it is given or as \<^verbatim>\<open>strip_code_fences\<close>
  returns it, \<^verbatim>\<open>safe_parse_llm_json\<close> returns a dict in which every entry with a key
  other than \<^verbatim>\<open>steps\<close> and \<^verbatim>\<open>notes\<close> is the object's, in the object's order, and every
  such key has the value it had.
\<close>

theorem safe_parse_llm_json_frame:
  assumes "json_loads (plan_limits R) t = Some (JObj d)
           \<or> json_loads (plan_limits R) (strip_code_fences t) = Some (JObj d)"
  shows "\<exists>d'. safe_parse_llm_json R t = Inr (JObj d') \<and>
      filter (\<lambda>p. fst p \<noteq> lit ''steps'' \<and> fst p \<noteq> lit ''notes'') d'
        = filter (\<lambda>p. fst p \<noteq> lit ''steps'' \<and> fst p \<noteq> lit ''notes'') d \<and>
      (\<forall>k. k \<noteq> lit ''steps'' \<and> k \<noteq> lit ''notes'' \<longrightarrow> dict_get d' k = dict_get d k)"
proof -
  let ?P = "\<lambda>k. k \<noteq> lit ''steps'' \<and> k \<noteq> lit ''notes''"
  let ?d' = "set_notes R (set_steps d)"
  from assms have "json_loads (plan_limits R) (strip_code_fences t) = Some (JObj d)"
    by (auto dest: json_loads_strip_code_fences)
  then have a: "safe_parse_llm_json R t = Inr (JObj ?d')"
    by (rule sanitize_object)
  have f1: "\<And>e. filter (\<lambda>p. ?P (fst p)) (set_steps e) = filter (\<lambda>p. ?P (fst p)) e"
    by (simp add: set_steps_def filter_dict_set [where P = ?P] split: option.splits)
  have f2: "\<And>e. filter (\<lambda>p. ?P (fst p)) (set_notes R e) = filter (\<lambda>p. ?P (fst p)) e"
    by (simp add: set_notes_def filter_dict_set [where P = ?P] split: option.splits)
  have b: "filter (\<lambda>p. ?P (fst p)) ?d' = filter (\<lambda>p. ?P (fst p)) d"
    by (simp only: f1 f2)
  have g1: "\<And>e k. ?P k \<Longrightarrow> dict_get (set_steps e) k = dict_get e k"
    by (simp add: set_steps_def dict_get_dict_set split: option.splits)
  have g2: "\<And>e k. ?P k \<Longrightarrow> dict_get (set_notes R e) k = dict_get e k"
    by (simp add: set_notes_def dict_get_dict_set split: option.splits)
  have c: "\<forall>k. ?P k \<longrightarrow> dict_get ?d' k = dict_get d k"
    by (simp add: g1 g2)
  from a b c show ?thesis by blast
qed

theorem safe_parse_llm_json_frame_witness:
  \<open>safe_parse_llm_json (stub_runtime RequestException)
       ([160] @ lit ''```'' @ [13, 10]
          @ lit ''{"plan_id": 7, "steps": null, "notes": true, "extra": ["x"]}'' @ [13, 10]
          @ lit ''```'')
     = Inr (JObj [(lit ''plan_id'', JInt 7), (lit ''steps'', JArr []),
                  (lit ''notes'', JStr (lit ''True'')), (lit ''extra'', JArr [JStr (lit ''x'')])])\<close>
proof -
  let ?R = "stub_runtime RequestException"
  let ?t = \<open>[160] @ lit ''```'' @ [13, 10]
          @ lit ''{"plan_id": 7, "steps": null, "notes": true, "extra": ["x"]}'' @ [13, 10]
          @ lit ''```''\<close>
  let ?d = "[(lit ''plan_id'', JInt 7), (lit ''steps'', JNull), (lit ''notes'', JBool True),
             (lit ''extra'', JArr [JStr (lit ''x'')])]"
  have p: "json_loads (plan_limits ?R) (strip_code_fences ?t) = Some (JObj ?d)"
    by (simp add: run)
  from safe_parse_llm_json_frame [OF disjI2 [OF p]] obtain d' where
    "safe_parse_llm_json ?R ?t = Inr (JObj d')" by blast
  moreover have "safe_parse_llm_json ?R ?t
     = Inr (JObj [(lit ''plan_id'', JInt 7), (lit ''steps'', JArr []),
                  (lit ''notes'', JStr (lit ''True'')), (lit ''extra'', JArr [JStr (lit ''x'')])])"
    by (simp add: run)
  ultimately show ?thesis by simp
qed

section \<open>A block of one line, a block of two lines\<close>

text \<open>
  C6, as the code has it. The guard \<^verbatim>\<open>len(lines) >= 2\<close> of line 108 keeps every text
  whose trimmed form is one line as it is, marker included: nothing collapses. What
  collapses to the empty string is the block of two lines, an opening marker line (with
  any tag that holds no line boundary) and a closing marker line.
\<close>

theorem strip_code_fences_single_line:
  "(text \<noteq> [] \<and> startswith (strip text) fence \<and> (\<forall>c \<in> set (strip text). \<not> is_linebreak c)
      \<longrightarrow> strip_code_fences text = strip text) \<and>
   ((\<forall>c \<in> set tag. \<not> is_linebreak c)
      \<longrightarrow> strip_code_fences (fence @ tag @ [10] @ fence) = [])"
proof (intro conjI impI)
  assume a: "text \<noteq> [] \<and> startswith (strip text) fence \<and>
    (\<forall>c \<in> set (strip text). \<not> is_linebreak c)"
  then have ne: "strip text \<noteq> []"
    by (auto simp: startswith_def fence_def)
  with a have "splitlines (strip text) = [strip text]"
    by (simp add: splitlines_one_line)
  with a show "strip_code_fences text = strip text"
    by (simp add: strip_code_fences_def Let_def)
next
  assume t: "\<forall>c \<in> set tag. \<not> is_linebreak c"
  let ?s = "fence @ tag @ [10] @ fence"
  have s: "strip ?s = ?s"
    by (rule strip_ends) (simp_all add: fence_def is_space_def)
  have "\<forall>c \<in> set (fence @ tag). \<not> is_linebreak c"
    using t by (auto simp: fence_def is_linebreak_def)
  from splitlines_from_no_break [OF this, of "[]" "[10] @ fence"]
  have l: "splitlines ?s = [fence @ tag, fence]"
    by (simp add: splitlines_def fence_def is_linebreak_def)
  have f: "strip fence = fence"
    by (rule strip_ends) (simp_all add: fence_def is_space_def)
  show "strip_code_fences ?s = []"
    unfolding strip_code_fences_def s Let_def l
    by (simp add: startswith_def f strip_Nil)
qed

theorem strip_code_fences_single_line_witness:
  "strip_code_fences (lit ''   ```json  '') = lit ''```json'' \<and>
   strip_code_fences (lit ''```json'' @ [10] @ lit ''```'') = []"
proof -
  have t: "strip (lit ''   ```json  '') = lit ''```json''"
    by (simp add: strip_def lstrip_def rstrip_def lit_def is_space_def)
  have "lit ''   ```json  '' \<noteq> [] \<and> startswith (strip (lit ''   ```json  '')) fence \<and>
          (\<forall>c \<in> set (strip (lit ''   ```json  '')). \<not> is_linebreak c)"
    unfolding t by (simp add: lit_def startswith_def fence_def is_linebreak_def)
  moreover have "\<forall>c \<in> set (lit ''json''). \<not> is_linebreak c"
    by (simp add: lit_def is_linebreak_def)
  ultimately show ?thesis
    using strip_code_fences_single_line [of "lit ''   ```json  ''" "lit ''json''"]
    by (simp add: t) (simp add: lit_def fence_def)
qed

text \<open>
  C6 as stated fails: the text that is only the marker, and the marker with a language
  tag, come back unchanged and are not the empty string.
\<close>

theorem strip_code_fences_marker_only_kept:
  "strip_code_fences [96, 96, 96] = [96, 96, 96] \<and>
   strip_code_fences (lit ''```json'') = lit ''```json'' \<and>
   strip_code_fences (lit ''```json'') \<noteq> []"
  by (simp add: strip_code_fences_def strip_def lstrip_def rstrip_def lit_def is_space_def
      is_linebreak_def startswith_def fence_def splitlines_def Let_def)

end
